theory Spec2Isabelle
  imports Complex_Main "HOL-Library.Multiset"
begin

section \<open>Selector Search plugin: data model\<close>

text \<open>
  The development embeds \<^verbatim>\<open>src/web/static/plugins/selector-search.js\<close>. JavaScript
  values that may be absent are \<open>jsval\<close>; \<open>truthy\<close> is the test that \<^verbatim>\<open>||\<close>,
  \<^verbatim>\<open>&&\<close> and \<^verbatim>\<open>if\<close> apply to such a value.
\<close>

datatype jsval = Undefined | Null | Str string

fun truthy :: "jsval \<Rightarrow> bool" where
  "truthy (Str s) = (s \<noteq> [])"
| "truthy Undefined = False"
| "truthy Null = False"

text \<open>\<^verbatim>\<open>a || b\<close> on values.\<close>

definition js_or :: "jsval \<Rightarrow> jsval \<Rightarrow> jsval" where
  "js_or a b = (if truthy a then a else b)"

text \<open>\<^verbatim>\<open>urlData.content_type || ''\<close>: the string that \<^verbatim>\<open>includes\<close> is called on.\<close>

fun or_empty :: "jsval \<Rightarrow> string" where
  "or_empty (Str s) = s"
| "or_empty Undefined = []"
| "or_empty Null = []"

text \<open>\<^verbatim>\<open>String.prototype.includes\<close>: the argument occurs as a contiguous substring.\<close>

fun str_includes :: "string \<Rightarrow> string \<Rightarrow> bool" where
  "str_includes [] sub = (sub = [])"
| "str_includes (c # cs) sub = (take (length sub) (c # cs) = sub \<or> str_includes cs sub)"

text \<open>
  \<^verbatim>\<open>String.prototype.trim\<close>. Strings are lists of 8-bit characters here, so the
  white space and line terminators of ECMAScript below \<open>0x100\<close> are the ones removed:
  TAB, LF, VT, FF, CR, SP and NBSP.
\<close>

definition is_whitespace :: "char \<Rightarrow> bool" where
  "is_whitespace c = (c \<in> set [CHR 0x09, CHR 0x0A, CHR 0x0B, CHR 0x0C, CHR 0x0D, CHR 0x20, CHR 0xA0])"

definition trim :: "string \<Rightarrow> string" where
  "trim s = rev (dropWhile is_whitespace (rev (dropWhile is_whitespace s)))"

text \<open>An entry of \<^verbatim>\<open>data.urls\<close>, as \<^verbatim>\<open>/api/crawl_status\<close> returns it.\<close>

record CrawlPageRecord =
  url :: string
  status_code :: int
  content_type :: jsval
  title :: jsval

text \<open>
  The object pushed at lines 207-212. Its fields carry the prefix \<open>res_\<close> because the
  inventory record already owns the names \<open>url\<close>, \<open>title\<close> and \<open>status_code\<close>.
\<close>

record PageMatchResult =
  res_url :: string
  res_title :: jsval
  res_count :: nat
  res_status_code :: int

text \<open>\<^verbatim>\<open>this.searchState\<close> (lines 22-27).\<close>

record searchState =
  selector :: string
  isSearching :: bool
  results :: "PageMatchResult list"
  error :: "string option"

definition onLoad :: searchState where
  "onLoad = \<lparr>selector = [], isSearching = False, results = [], error = None\<rparr>"

text \<open>A thrown \<^verbatim>\<open>Error\<close>, with its message.\<close>

datatype js_error = Error string

fun message :: "js_error \<Rightarrow> string" where
  "message (Error m) = m"

text \<open>The JSON body of \<^verbatim>\<open>/api/fetch_html\<close>.\<close>

record htmlData =
  success :: bool
  html :: jsval

text \<open>
  What the plugin does not contain is a parameter: the two endpoints, the browser's
  \<^verbatim>\<open>DOMParser\<close> and \<^verbatim>\<open>querySelectorAll\<close> (either may throw, which is \<open>Inl\<close>), and the
  order in which the pending fetches of a batch complete. \<open>crawl_status\<close> is
  \<^verbatim>\<open>data.urls\<close>, with \<open>[]\<close> standing for a missing or empty array.
  \<open>completion_order env i\<close> schedules the batch that starts at index \<open>i\<close>; see
  \<open>settle_order\<close>.
\<close>

record 'doc env =
  crawl_status :: "js_error + CrawlPageRecord list"
  fetch_html :: "string \<Rightarrow> js_error + htmlData"
  parseFromString :: "string \<Rightarrow> js_error + 'doc"
  querySelectorAll :: "'doc \<Rightarrow> string \<Rightarrow> js_error + nat"
  completion_order :: "nat \<Rightarrow> nat list"

text \<open>What a run does that an observer can see, in the order it happens.\<close>

datatype notice_kind = ErrorKind | InfoKind | SuccessKind

datatype notice =
    Please_enter_a_CSS_selector
  | No_crawled_pages_available
  | Selector_not_found string
  | Found_on_pages string nat
  | Search_failed string

datatype event =
    GetCrawlStatus
  | PostFetchHtml string
  | ConsoleError string
  | TaskSettled string
  | ProgressText int
  | Notification notice notice_kind
  | Rejected js_error

text \<open>
  The locals of \<^verbatim>\<open>performSearch\<close> that the page tasks share: the array
  \<^verbatim>\<open>results\<close> (here \<open>l_results\<close>, since \<open>results\<close> is the session's field), the counter
  \<^verbatim>\<open>processed\<close>, and the events so far.
\<close>

record locals =
  l_results :: "PageMatchResult list"
  processed :: nat
  trace :: "event list"

section \<open>The structural matcher\<close>

text \<open>
  Lines 263-269: the inner \<^verbatim>\<open>try\<close> turns whatever \<^verbatim>\<open>querySelectorAll\<close> throws into
  \<^verbatim>\<open>new Error(`Invalid CSS selector: ${selector}`)\<close>.
\<close>

definition query_selector :: "('doc \<Rightarrow> string \<Rightarrow> js_error + nat) \<Rightarrow> 'doc \<Rightarrow> string \<Rightarrow> js_error + nat" where
  "query_selector qsa doc sel =
     (case qsa doc sel of
        Inl e \<Rightarrow> Inl (Error (''Invalid CSS selector: '' @ sel))
      | Inr n \<Rightarrow> Inr n)"

text \<open>
  Lines 256-276: the outer \<^verbatim>\<open>try\<close> encloses both the parse and the inner \<^verbatim>\<open>try\<close>, and
  its handler returns \<open>0\<close> for every error that reaches it.
\<close>

definition countSelectorMatches ::
  "(string \<Rightarrow> js_error + 'doc) \<Rightarrow> ('doc \<Rightarrow> string \<Rightarrow> js_error + nat) \<Rightarrow> string \<Rightarrow> string \<Rightarrow> js_error + nat" where
  "countSelectorMatches parse qsa markup sel =
     (case (case parse markup of
              Inl e \<Rightarrow> Inl e
            | Inr doc \<Rightarrow> query_selector qsa doc sel) of
        Inl err \<Rightarrow> Inr 0
      | Inr n \<Rightarrow> Inr n)"

section \<open>The page task\<close>

text \<open>Lines 180 and 185-186: the pages that go on to the fetch.\<close>

definition eligible :: "CrawlPageRecord \<Rightarrow> bool" where
  "eligible urlData =
     (status_code urlData = 200 \<and> str_includes (or_empty (content_type urlData)) ''text/html'')"

text \<open>The \<^verbatim>\<open>finally\<close> block of line 218, after which the task's promise is settled.\<close>

definition finally_block :: "CrawlPageRecord \<Rightarrow> locals \<Rightarrow> locals" where
  "finally_block urlData st =
     st\<lparr>processed := processed st + 1, trace := trace st @ [TaskSettled (url urlData)]\<rparr>"

text \<open>
  Lines 178-198: what a task does when \<^verbatim>\<open>batch.map\<close> calls it, up to its first
  \<^verbatim>\<open>await\<close>. Both early returns increment \<^verbatim>\<open>processed\<close> and then leave the
  \<^verbatim>\<open>try\<close>, so the \<^verbatim>\<open>finally\<close> block runs as well.
\<close>

definition start_task :: "CrawlPageRecord \<Rightarrow> locals \<Rightarrow> locals" where
  "start_task urlData st =
     (if status_code urlData \<noteq> 200 then
        finally_block urlData (st\<lparr>processed := processed st + 1\<rparr>)
      else if \<not> str_includes (or_empty (content_type urlData)) ''text/html'' then
        finally_block urlData (st\<lparr>processed := processed st + 1\<rparr>)
      else st\<lparr>trace := trace st @ [PostFetchHtml (url urlData)]\<rparr>)"

text \<open>
  Lines 192-214, from the response on: \<open>Inl\<close> is an exception on its way to the
  handler of line 215, \<open>Inr\<close> the entries to push (none or one).
\<close>

definition match_page :: "'doc env \<Rightarrow> string \<Rightarrow> CrawlPageRecord \<Rightarrow> js_error + PageMatchResult list" where
  "match_page env sel urlData =
     (case fetch_html env (url urlData) of
        Inl e \<Rightarrow> Inl e
      | Inr resp \<Rightarrow>
          if success resp \<and> truthy (html resp) then
            (case countSelectorMatches (parseFromString env) (querySelectorAll env)
                    (or_empty (html resp)) sel of
               Inl e \<Rightarrow> Inl e
             | Inr cnt \<Rightarrow>
                 if cnt > 0 then
                   Inr [\<lparr>res_url = url urlData,
                         res_title = js_or (title urlData) (Str (url urlData)),
                         res_count = cnt,
                         res_status_code = status_code urlData\<rparr>]
                 else Inr [])
          else Inr [])"

text \<open>Lines 200-219: the rest of an eligible page's task, run when its fetch completes.\<close>

definition complete_task :: "'doc env \<Rightarrow> string \<Rightarrow> CrawlPageRecord \<Rightarrow> locals \<Rightarrow> locals" where
  "complete_task env sel urlData st =
     finally_block urlData
       (case match_page env sel urlData of
          Inl err \<Rightarrow> st\<lparr>trace := trace st @ [ConsoleError (url urlData)]\<rparr>
        | Inr rs \<Rightarrow> st\<lparr>l_results := l_results st @ rs\<rparr>)"

section \<open>Batches\<close>

text \<open>
  The pending tasks of a batch resume in an order the program does not choose. A
  schedule is a list of picks: each pick, taken modulo the number of tasks still
  pending, names the next one to complete; when the picks run out the first pending
  task is next. Every list of picks gives a permutation of the pending tasks, and the
  empty list gives the order of the inventory.
\<close>

function settle_order :: "nat list \<Rightarrow> 'a list \<Rightarrow> 'a list" where
  "settle_order picks [] = []"
| "settle_order picks (x # xs) =
     (let k = (case picks of [] \<Rightarrow> 0 | j # _ \<Rightarrow> j mod length (x # xs))
      in (x # xs) ! k # settle_order (tl picks) (take k (x # xs) @ drop (Suc k) (x # xs)))"
  by pat_completeness auto
termination
  by (relation "measure (\<lambda>(picks, xs). length xs)") (auto split: list.splits)

text \<open>
  Line 177: \<^verbatim>\<open>batch.map\<close> starts every task of the batch in order, and
  \<^verbatim>\<open>Promise.all\<close> resolves once the pending ones have completed.
\<close>

definition run_batch :: "'doc env \<Rightarrow> string \<Rightarrow> nat \<Rightarrow> CrawlPageRecord list \<Rightarrow> locals \<Rightarrow> locals" where
  "run_batch env sel i batch st =
     foldl (\<lambda>s urlData. complete_task env sel urlData s)
       (foldl (\<lambda>s urlData. start_task urlData s) st batch)
       (settle_order (completion_order env i) (filter eligible batch))"

subsection \<open>Double-precision arithmetic\<close>

text \<open>
  Line 224 computes in IEEE 754 double precision, rounding to the nearest double, ties
  to even, after the division and again after the multiplication. A fraction is a
  pair of a numerator and a denominator; a double is a pair \<open>(m, e)\<close> that stands for
  \<open>m * 2 ^ e\<close>. Only what line 224 needs is modelled: values that are zero or positive
  and in the normal range, which holds for the quotient and the product of two array
  lengths and \<open>100\<close>, and integers below \<open>2 ^ 53\<close>, which are doubles as they are.
\<close>

text \<open>The number of binary digits of \<open>n\<close>.\<close>

fun bit_length :: "nat \<Rightarrow> nat" where
  "bit_length n = (if n = 0 then 0 else Suc (bit_length (n div 2)))"

declare bit_length.simps [simp del]

text \<open>The fraction \<open>q\<close> times \<open>2 ^ e\<close>.\<close>

definition scale :: "nat \<times> nat \<Rightarrow> int \<Rightarrow> nat \<times> nat" where
  "scale q e = (if 0 \<le> e then (fst q * 2 ^ nat e, snd q) else (fst q, snd q * 2 ^ nat (- e)))"

text \<open>The integer nearest to a fraction, the even one of two that are equally near.\<close>

definition round_half_even :: "nat \<times> nat \<Rightarrow> nat" where
  "round_half_even q =
     (let f = fst q div snd q; r = fst q mod snd q
      in if 2 * r < snd q then f
         else if snd q < 2 * r then f + 1
         else if even f then f else f + 1)"

text \<open>
  The double nearest to a fraction \<open>q\<close>. With \<open>k\<close> the difference of the bit lengths,
  \<open>q\<close> lies between \<open>2 ^ (k - 1)\<close> and \<open>2 ^ (k + 1)\<close>; \<open>x\<close> is the exponent of its leading
  binary digit, and the mantissa keeps 53 digits from there.
\<close>

definition to_double :: "nat \<times> nat \<Rightarrow> nat \<times> int" where
  "to_double q =
     (let k = int (bit_length (fst q)) - int (bit_length (snd q));
          below = scale q (- k);
          x = (if fst below < snd below then k - 1 else k);
          e = x - 52
      in (round_half_even (scale q (- e)), e))"

text \<open>\<^verbatim>\<open>a / b\<close> on two integers, and \<^verbatim>\<open>d * c\<close> on a double and an integer.\<close>

definition double_div :: "nat \<Rightarrow> nat \<Rightarrow> nat \<times> int" where
  "double_div a b = to_double (a, b)"

definition double_times :: "nat \<times> int \<Rightarrow> nat \<Rightarrow> nat \<times> int" where
  "double_times d c = to_double (scale (fst d * c, 1) (snd d))"

text \<open>\<^verbatim>\<open>Math.round\<close>: the nearest integer, the larger one of two that are equally near.\<close>

definition Math_round :: "nat \<times> int \<Rightarrow> int" where
  "Math_round d =
     (let q = scale (fst d, 1) (snd d) in int ((2 * fst q + snd q) div (2 * snd q)))"

text \<open>
  Line 224: \<^verbatim>\<open>Math.round((processed / totalUrls) * 100)\<close>. \<open>totalUrls\<close> is never
  \<open>0\<close> there, because line 153 returns on an empty inventory.
\<close>

definition progress_percent :: "nat \<Rightarrow> nat \<Rightarrow> int" where
  "progress_percent n totalUrls = Math_round (double_times (double_div n totalUrls) 100)"

text \<open>Lines 222-229.\<close>

definition update_progress :: "nat \<Rightarrow> locals \<Rightarrow> locals" where
  "update_progress totalUrls st =
     st\<lparr>trace := trace st @ [ProgressText (progress_percent (processed st) totalUrls)]\<rparr>"

text \<open>\<^verbatim>\<open>Array.prototype.slice\<close> with both bounds inside the natural numbers.\<close>

definition slice :: "nat \<Rightarrow> nat \<Rightarrow> 'a list \<Rightarrow> 'a list" where
  "slice i j xs = take (j - i) (drop i xs)"

definition batchSize :: nat where
  "batchSize = 5"

text \<open>Lines 174-230: the loop over the whole of \<^verbatim>\<open>data.urls\<close>.\<close>

function batch_loop :: "'doc env \<Rightarrow> string \<Rightarrow> CrawlPageRecord list \<Rightarrow> nat \<Rightarrow> locals \<Rightarrow> locals" where
  "batch_loop env sel urls i st =
     (if i < length urls then
        batch_loop env sel urls (i + batchSize)
          (update_progress (length urls)
             (run_batch env sel i (slice i (i + batchSize) urls) st))
      else st)"
  by pat_completeness auto
termination
  by (relation "measure (\<lambda>(env, sel, urls, i, st). length urls - i)") (auto simp: batchSize_def)

declare batch_loop.simps [simp del]

section \<open>Aggregation\<close>

text \<open>
  \<^verbatim>\<open>Array.prototype.sort\<close> is stable: an element is placed before the first one that
  the comparator does not put ahead of it.
\<close>

fun insert_by :: "('a \<Rightarrow> 'a \<Rightarrow> int) \<Rightarrow> 'a \<Rightarrow> 'a list \<Rightarrow> 'a list" where
  "insert_by cmp x [] = [x]"
| "insert_by cmp x (y # ys) = (if cmp x y \<le> 0 then x # y # ys else y # insert_by cmp x ys)"

definition Array_sort :: "('a \<Rightarrow> 'a \<Rightarrow> int) \<Rightarrow> 'a list \<Rightarrow> 'a list" where
  "Array_sort cmp xs = foldr (insert_by cmp) xs []"

text \<open>Line 233: \<^verbatim>\<open>(a, b) => b.count - a.count\<close>.\<close>

definition by_count :: "PageMatchResult \<Rightarrow> PageMatchResult \<Rightarrow> int" where
  "by_count a b = int (res_count b) - int (res_count a)"

text \<open>Line 279.\<close>

definition totalMatches :: "PageMatchResult list \<Rightarrow> nat" where
  "totalMatches rs = foldl (\<lambda>sum r. sum + res_count r) 0 rs"

section \<open>The search\<close>

text \<open>Lines 158-161.\<close>

definition begin_search :: "string \<Rightarrow> searchState \<Rightarrow> searchState" where
  "begin_search sel s = s\<lparr>selector := sel, isSearching := True, error := None, results := []\<rparr>"

text \<open>
  Lines 166-233, the body of the \<^verbatim>\<open>try\<close>. Every page task handles its own
  exceptions, so \<^verbatim>\<open>Promise.all\<close> never rejects and the body always yields \<open>Inr\<close>.
\<close>

definition search_body :: "'doc env \<Rightarrow> string \<Rightarrow> CrawlPageRecord list \<Rightarrow> js_error + locals" where
  "search_body env sel urls =
     Inr (batch_loop env sel urls 0 \<lparr>l_results = [], processed = 0, trace = []\<rparr>)"

text \<open>
  Lines 139-254. \<open>input\<close> is the value of the input element, \<open>None\<close> when the element
  is not in the document. The result is the session afterwards and the events of the
  call.
\<close>

definition performSearch :: "'doc env \<Rightarrow> string option \<Rightarrow> searchState \<Rightarrow> searchState \<times> event list" where
  "performSearch env input s =
     (case input of
        None \<Rightarrow> (s, [])
      | Some v \<Rightarrow>
          let sel = trim v in
          if sel = [] then (s, [Notification Please_enter_a_CSS_selector ErrorKind])
          else
            (case crawl_status env of
               Inl e \<Rightarrow> (s, [GetCrawlStatus, Rejected e])
             | Inr urls \<Rightarrow>
                 if urls = [] then
                   (s, [GetCrawlStatus, Notification No_crawled_pages_available ErrorKind])
                 else
                   let s1 = begin_search sel s in
                   (case search_body env sel urls of
                      Inr st \<Rightarrow>
                        let sorted = Array_sort by_count (l_results st) in
                        (s1\<lparr>results := sorted, isSearching := False\<rparr>,
                         GetCrawlStatus # trace st @
                           [if sorted = [] then Notification (Selector_not_found sel) InfoKind
                            else Notification (Found_on_pages sel (length sorted)) SuccessKind])
                    | Inl err \<Rightarrow>
                        (s1\<lparr>error := Some (if message err \<noteq> [] then message err
                                            else ''An error occurred during search''),
                            isSearching := False\<rparr>,
                         [GetCrawlStatus, Notification (Search_failed (message err)) ErrorKind]))))"

section \<open>The controls\<close>

text \<open>
  Lines 96, 107 and 109 of \<^verbatim>\<open>render\<close>: the attributes of the input and of the button
  that depend on the session.
\<close>

record controls =
  input_disabled :: bool
  button_disabled :: bool
  button_label :: string

definition render_controls :: "searchState \<Rightarrow> controls" where
  "render_controls s =
     \<lparr>input_disabled = isSearching s,
      button_disabled = isSearching s,
      button_label = (if isSearching s then ''Searching...'' else ''Search'')\<rparr>"

text \<open>
  The two ways the page calls \<^verbatim>\<open>performSearch\<close>: the button's \<^verbatim>\<open>onclick\<close>
  (line 105), which a browser does not dispatch on a disabled button, and the
  \<^verbatim>\<open>keypress\<close> listener of lines 131-135. \<open>invokes_search s ev\<close> tells whether the
  event calls \<^verbatim>\<open>performSearch\<close> when the controls show the session \<open>s\<close>.
\<close>

datatype ui_event = ButtonClick | KeyPress string

fun invokes_search :: "searchState \<Rightarrow> ui_event \<Rightarrow> bool" where
  "invokes_search s ButtonClick = (\<not> button_disabled (render_controls s))"
| "invokes_search s (KeyPress key) = (key = ''Enter'' \<and> \<not> isSearching s)"

section \<open>Closed forms of the run\<close>

text \<open>
  The notions below describe a run without running it: what one page contributes, what
  one batch contributes, and where the batches start. The lemmas after them show that
  \<open>batch_loop\<close> computes exactly these.
\<close>

text \<open>What the task of an eligible page pushes: nothing when it throws.\<close>

definition page_result :: "'doc env \<Rightarrow> string \<Rightarrow> CrawlPageRecord \<Rightarrow> PageMatchResult list" where
  "page_result env sel urlData = (case match_page env sel urlData of Inl err \<Rightarrow> [] | Inr rs \<Rightarrow> rs)"

text \<open>The events of an eligible page's task once its fetch has completed.\<close>

definition completion_events :: "'doc env \<Rightarrow> string \<Rightarrow> CrawlPageRecord \<Rightarrow> event list" where
  "completion_events env sel urlData =
     (case match_page env sel urlData of
        Inl err \<Rightarrow> [ConsoleError (url urlData), TaskSettled (url urlData)]
      | Inr rs \<Rightarrow> [TaskSettled (url urlData)])"

text \<open>The event of a task when it is started: the fetch, or the early return.\<close>

definition start_event :: "CrawlPageRecord \<Rightarrow> event" where
  "start_event urlData =
     (if eligible urlData then PostFetchHtml (url urlData) else TaskSettled (url urlData))"

text \<open>The eligible pages of the batch that starts at \<open>i\<close>, in the order they complete.\<close>

definition completions :: "'doc env \<Rightarrow> nat \<Rightarrow> CrawlPageRecord list \<Rightarrow> CrawlPageRecord list" where
  "completions env i batch = settle_order (completion_order env i) (filter eligible batch)"

definition batch_results :: "'doc env \<Rightarrow> string \<Rightarrow> nat \<Rightarrow> CrawlPageRecord list \<Rightarrow> PageMatchResult list" where
  "batch_results env sel i batch = concat (map (page_result env sel) (completions env i batch))"

definition batch_events :: "'doc env \<Rightarrow> string \<Rightarrow> nat \<Rightarrow> CrawlPageRecord list \<Rightarrow> event list" where
  "batch_events env sel i batch =
     map start_event batch @ concat (map (completion_events env sel) (completions env i batch))"

text \<open>
  What a list of pages adds to \<open>processed\<close>: one for each page and one more for each
  page that is not eligible.
\<close>

definition counted :: "CrawlPageRecord list \<Rightarrow> nat" where
  "counted batch = length batch + length (filter (\<lambda>urlData. \<not> eligible urlData) batch)"

text \<open>The values of the loop variable \<open>i\<close> from \<open>i\<close> on, for an inventory of \<open>n\<close> pages.\<close>

function batch_starts :: "nat \<Rightarrow> nat \<Rightarrow> nat list" where
  "batch_starts i n = (if i < n then i # batch_starts (i + batchSize) n else [])"
  by pat_completeness auto
termination
  by (relation "measure (\<lambda>(i, n). n - i)") (auto simp: batchSize_def)

declare batch_starts.simps [simp del]

text \<open>The effect of a step that pushes \<open>rs\<close>, counts \<open>k\<close> and emits \<open>evs\<close>.\<close>

definition advance :: "locals \<Rightarrow> PageMatchResult list \<Rightarrow> nat \<Rightarrow> event list \<Rightarrow> locals" where
  "advance st rs k evs =
     st\<lparr>l_results := l_results st @ rs, processed := processed st + k, trace := trace st @ evs\<rparr>"

text \<open>
  What the loop pushes and emits from index \<open>i\<close> on, when \<open>processed\<close> is \<open>p\<close> on
  entry.
\<close>

definition loop_results :: "'doc env \<Rightarrow> string \<Rightarrow> CrawlPageRecord list \<Rightarrow> nat \<Rightarrow> PageMatchResult list" where
  "loop_results env sel urls i =
     concat (map (\<lambda>j. batch_results env sel j (slice j (j + batchSize) urls))
               (batch_starts i (length urls)))"

definition loop_events :: "'doc env \<Rightarrow> string \<Rightarrow> CrawlPageRecord list \<Rightarrow> nat \<Rightarrow> nat \<Rightarrow> event list" where
  "loop_events env sel urls p i =
     concat (map (\<lambda>j. batch_events env sel j (slice j (j + batchSize) urls) @
                       [ProgressText (progress_percent (p + counted (slice i (j + batchSize) urls))
                                        (length urls))])
               (batch_starts i (length urls)))"

text \<open>
  A page fails when its fetch is rejected, when the response is not a success with
  non-empty markup (line 202), or when parsing the markup throws.
\<close>

definition page_fails :: "'doc env \<Rightarrow> js_error + htmlData \<Rightarrow> bool" where
  "page_fails env out =
     (case out of
        Inl e \<Rightarrow> True
      | Inr resp \<Rightarrow>
          (if success resp \<and> truthy (html resp)
           then isl (parseFromString env (or_empty (html resp)))
           else True))"

text \<open>The same environment, except that the fetch of \<open>u\<close> has the outcome \<open>out\<close>.\<close>

definition with_outcome :: "'doc env \<Rightarrow> string \<Rightarrow> js_error + htmlData \<Rightarrow> 'doc env" where
  "with_outcome env u out = env\<lparr>fetch_html := (fetch_html env)(u := out)\<rparr>"

text \<open>
  The locals as line 224 reads them, once for each batch from index \<open>i\<close> on: the
  state that \<open>run_batch\<close> leaves, before \<open>update_progress\<close> publishes its counter.
\<close>

function batch_snapshots ::
  "'doc env \<Rightarrow> string \<Rightarrow> CrawlPageRecord list \<Rightarrow> nat \<Rightarrow> locals \<Rightarrow> locals list" where
  "batch_snapshots env sel urls i st =
     (if i < length urls then
        run_batch env sel i (slice i (i + batchSize) urls) st
          # batch_snapshots env sel urls (i + batchSize)
              (update_progress (length urls)
                 (run_batch env sel i (slice i (i + batchSize) urls) st))
      else [])"
  by pat_completeness auto
termination
  by (relation "measure (\<lambda>(env, sel, urls, i, st). length urls - i)") (auto simp: batchSize_def)

declare batch_snapshots.simps [simp del]

text \<open>The events that set the button's text.\<close>

fun is_progress :: "event \<Rightarrow> bool" where
  "is_progress (ProgressText p) = True"
| "is_progress e = False"

section \<open>Scenarios\<close>

text \<open>
  Concrete inputs for the worked examples. \<open>tag_query\<close> stands in for the browser's
  selector engine on the scenarios' markup: a selector ending in \<open>>\<close> is a syntax
  error, any other selector matches the opening tags of that name. \<open>serve\<close> is a
  fetcher given by a table; a URL outside the table is a failed fetch.
\<close>

fun occurrences :: "string \<Rightarrow> string \<Rightarrow> nat" where
  "occurrences [] sub = 0"
| "occurrences (c # cs) sub =
     (if take (length sub) (c # cs) = sub then 1 else 0) + occurrences cs sub"

definition tag_query :: "string \<Rightarrow> string \<Rightarrow> js_error + nat" where
  "tag_query doc sel =
     (if sel \<noteq> [] \<and> last sel = CHR ''>'' then Inl (Error ''SyntaxError'')
      else Inr (occurrences doc (CHR ''<'' # sel)))"

definition page :: "string \<Rightarrow> int \<Rightarrow> jsval \<Rightarrow> jsval \<Rightarrow> CrawlPageRecord" where
  "page u code ctype t = \<lparr>url = u, status_code = code, content_type = ctype, title = t\<rparr>"

definition html_page :: "string \<Rightarrow> CrawlPageRecord" where
  "html_page u = page u 200 (Str ''text/html; charset=utf-8'') Null"

definition ok :: "string \<Rightarrow> htmlData" where
  "ok markup = \<lparr>success = True, html = Str markup\<rparr>"

definition serve :: "(string \<times> htmlData) list \<Rightarrow> string \<Rightarrow> js_error + htmlData" where
  "serve table u =
     (case map_of table u of None \<Rightarrow> Inl (Error ''Failed to fetch'') | Some resp \<Rightarrow> Inr resp)"

definition browser ::
  "CrawlPageRecord list \<Rightarrow> (string \<times> htmlData) list \<Rightarrow> (nat \<Rightarrow> nat list) \<Rightarrow> string env" where
  "browser urls table order =
     \<lparr>crawl_status = Inr urls, fetch_html = serve table, parseFromString = Inr,
      querySelectorAll = tag_query, completion_order = order\<rparr>"

definition titled :: "CrawlPageRecord list" where
  "titled = [page ''/a'' 200 (Str ''text/html'') (Str ''Home''),
             page ''/b'' 200 (Str ''text/html'') Null,
             page ''/c'' 200 (Str ''text/html'') (Str ''''),
             page ''/d'' 200 (Str ''text/html'') Undefined]"

definition one_heading :: "(string \<times> htmlData) list" where
  "one_heading = [(''/a'', ok ''<h1>a</h1>''), (''/b'', ok ''<h1>b</h1>''),
                  (''/c'', ok ''<h1>c</h1>''), (''/d'', ok ''<h1>d</h1>'')]"

text \<open>
  The inventory of the twelve-page scenario: every page is an HTML page with status 200
  and its markup has three \<open>h1\<close> elements.
\<close>

definition twelve_urls :: "string list" where
  "twelve_urls = [''/p01'', ''/p02'', ''/p03'', ''/p04'', ''/p05'', ''/p06'',
                  ''/p07'', ''/p08'', ''/p09'', ''/p10'', ''/p11'', ''/p12'']"

definition twelve :: "CrawlPageRecord list" where
  "twelve = map html_page twelve_urls"

definition three_headings :: "(string \<times> htmlData) list" where
  "three_headings = map (\<lambda>u. (u, ok ''<h1>1</h1><h1>2</h1><h1>3</h1>'')) twelve_urls"

text \<open>Four pages with 2, 0, 5 and 2 headings.\<close>

definition four :: "CrawlPageRecord list" where
  "four = map html_page [''/a'', ''/b'', ''/c'', ''/d'']"

definition four_served :: "(string \<times> htmlData) list" where
  "four_served = [(''/a'', ok ''<h1>1</h1><h1>2</h1>''), (''/b'', ok ''<p>none</p>''),
                  (''/c'', ok ''<h1>1</h1><h1>2</h1><h1>3</h1><h1>4</h1><h1>5</h1>''),
                  (''/d'', ok ''<h1>1</h1><h1>2</h1>'')]"

text \<open>Six pages, the first of which is not eligible.\<close>

definition six :: "CrawlPageRecord list" where
  "six = page ''/x'' 404 (Str ''text/html'') Null
           # map html_page [''/1'', ''/2'', ''/3'', ''/4'', ''/5'']"

definition six_served :: "(string \<times> htmlData) list" where
  "six_served = map (\<lambda>u. (u, ok ''<h1>x</h1>'')) [''/x'', ''/1'', ''/2'', ''/3'', ''/4'', ''/5'']"

section \<open>Properties of the embedding\<close>

subsection \<open>Tasks and batches as effects on the locals\<close>

lemma advance_simps [simp]:
  "l_results (advance st rs k evs) = l_results st @ rs"
  "processed (advance st rs k evs) = processed st + k"
  "trace (advance st rs k evs) = trace st @ evs"
  by (simp_all add: advance_def)

lemma advance_advance: "advance (advance st rs k evs) rs' k' evs' = advance st (rs @ rs') (k + k') (evs @ evs')"
  by (simp add: advance_def)

lemma advance_id: "advance st [] 0 [] = st"
  by (simp add: advance_def)

lemma start_task_advance:
  "start_task urlData st = advance st [] (if eligible urlData then 0 else 2) [start_event urlData]"
  by (simp add: start_task_def advance_def finally_block_def start_event_def eligible_def)

lemma complete_task_advance:
  "complete_task env sel urlData st =
     advance st (page_result env sel urlData) 1 (completion_events env sel urlData)"
  by (simp add: complete_task_def advance_def finally_block_def page_result_def completion_events_def
      split: sum.splits)

lemma foldl_advance:
  "foldl (\<lambda>s x. advance s (f x) (g x) (h x)) st xs =
     advance st (concat (map f xs)) (sum_list (map g xs)) (concat (map h xs))"
proof (induction xs arbitrary: st)
  case Nil
  show ?case by (simp add: advance_id)
next
  case (Cons x xs)
  show ?case by (simp add: Cons.IH advance_advance)
qed

lemma sum_list_ineligible:
  "sum_list (map (\<lambda>urlData. if eligible urlData then 0 else 2) batch)
     = 2 * length (filter (\<lambda>urlData. \<not> eligible urlData) batch)"
  by (induction batch) simp_all

subsection \<open>The completion order is a permutation\<close>

lemma settle_order_Nil_picks: "settle_order [] xs = xs"
  by (induction xs) simp_all

lemma mset_remove_nth:
  assumes "k < length ys"
  shows "mset (ys ! k # (take k ys @ drop (Suc k) ys)) = mset ys"
proof -
  have "ys = take k ys @ ys ! k # drop (Suc k) ys"
    using assms by (rule id_take_nth_drop)
  then have "mset ys = mset (take k ys @ ys ! k # drop (Suc k) ys)"
    by simp
  then show ?thesis by simp
qed

lemma mset_settle_order [simp]: "mset (settle_order picks xs) = mset xs"
proof (induction picks xs rule: settle_order.induct)
  case (1 picks)
  show ?case by simp
next
  case (2 picks x xs)
  define k where "k = (case picks of [] \<Rightarrow> 0 | j # _ \<Rightarrow> j mod length (x # xs))"
  have kl: "k < length (x # xs)"
    by (auto simp: k_def split: list.splits)
  have "mset (settle_order (tl picks) (take k (x # xs) @ drop (Suc k) (x # xs)))
        = mset (take k (x # xs) @ drop (Suc k) (x # xs))"
    using "2.IH" [of k] by (simp add: k_def)
  then have "mset (settle_order picks (x # xs))
        = mset ((x # xs) ! k # (take k (x # xs) @ drop (Suc k) (x # xs)))"
    by (simp add: k_def Let_def del: drop_Suc_Cons)
  then show ?case using mset_remove_nth [OF kl] by simp
qed

lemma length_settle_order [simp]: "length (settle_order picks xs) = length xs"
  using mset_settle_order [of picks xs] by (metis size_mset)

lemma set_settle_order [simp]: "set (settle_order picks xs) = set xs"
  using mset_settle_order [of picks xs] by (metis set_mset_mset)

subsection \<open>The loop\<close>

lemma concat_map_Nil: "concat (map (\<lambda>x. []) xs) = []"
  by (induction xs) simp_all

lemma run_batch_advance:
  "run_batch env sel i batch st =
     advance st (batch_results env sel i batch) (counted batch) (batch_events env sel i batch)"
proof -
  have len: "2 * length (filter (\<lambda>urlData. \<not> eligible urlData) batch) + length (completions env i batch)
        = counted batch"
    using sum_length_filter_compl [of eligible batch]
    by (simp add: completions_def counted_def)
  show ?thesis
    unfolding run_batch_def start_task_advance complete_task_advance foldl_advance
      advance_advance completions_def [symmetric]
    by (simp add: batch_results_def batch_events_def sum_list_ineligible len
        sum_list_triv concat_map_Nil del: advance_simps)
qed

lemma update_progress_advance:
  "update_progress n (advance st rs k evs)
     = advance st rs k (evs @ [ProgressText (progress_percent (processed st + k) n)])"
  by (simp add: update_progress_def advance_def)

lemma batch_starts_bounds: "j \<in> set (batch_starts i n) \<Longrightarrow> i \<le> j \<and> j < n"
proof (induction i n rule: batch_starts.induct)
  case (1 i n)
  then show ?case
    by (subst (asm) (2) batch_starts.simps) (auto split: if_splits)
qed

lemma slice_append:
  assumes "i \<le> m" "m \<le> j"
  shows "slice i j xs = slice i m xs @ slice m j xs"
proof -
  have "j - i = (m - i) + (j - m)" using assms by simp
  then have "take (j - i) (drop i xs) = take (m - i) (drop i xs) @ take (j - m) (drop (m - i) (drop i xs))"
    by (simp only: take_add)
  then show ?thesis using assms by (simp add: slice_def)
qed

lemma slice_drop:
  assumes "i \<le> j"
  shows "slice i j xs @ drop j xs = drop i xs"
proof -
  have "drop j xs = drop (j - i) (drop i xs)" using assms by simp
  then have "slice i j xs @ drop j xs = take (j - i) (drop i xs) @ drop (j - i) (drop i xs)"
    by (simp only: slice_def)
  then show ?thesis by (simp only: append_take_drop_id)
qed

lemma counted_append: "counted (xs @ ys) = counted xs + counted ys"
  by (simp add: counted_def)

lemma batch_loop_advance:
  "batch_loop env sel urls i st =
     advance st (loop_results env sel urls i) (counted (drop i urls))
       (loop_events env sel urls (processed st) i)"
proof (induction env sel urls i st rule: batch_loop.induct)
  case (1 env sel urls i st)
  show ?case
  proof (cases "i < length urls")
    case False
    then show ?thesis
      by (simp add: batch_loop.simps batch_starts.simps loop_results_def loop_events_def
          counted_def advance_id)
  next
    case True
    let ?n = "length urls"
    let ?b = "slice i (i + batchSize) urls"
    let ?st' = "update_progress ?n (run_batch env sel i ?b st)"
    have st': "?st' = advance st (batch_results env sel i ?b) (counted ?b)
          (batch_events env sel i ?b @ [ProgressText (progress_percent (processed st + counted ?b) ?n)])"
      by (simp only: run_batch_advance update_progress_advance)
    have starts: "batch_starts i ?n = i # batch_starts (i + batchSize) ?n"
      using True by (subst batch_starts.simps) simp
    have res: "batch_results env sel i ?b @ loop_results env sel urls (i + batchSize)
          = loop_results env sel urls i"
      by (simp add: loop_results_def starts)
    have cnt: "counted ?b + counted (drop (i + batchSize) urls) = counted (drop i urls)"
      using slice_drop [of i "i + batchSize" urls] counted_append [of ?b "drop (i + batchSize) urls"]
      by simp
    have tl_eq: "p + counted ?b + counted (slice (i + batchSize) (j + batchSize) urls)
          = p + counted (slice i (j + batchSize) urls)"
      if "j \<in> set (batch_starts (i + batchSize) ?n)" for j p
    proof -
      have "i + batchSize \<le> j" using batch_starts_bounds [OF that] by simp
      then have "slice i (j + batchSize) urls = ?b @ slice (i + batchSize) (j + batchSize) urls"
        by (intro slice_append) simp_all
      then show ?thesis by (simp add: counted_append)
    qed
    have ev: "(batch_events env sel i ?b @ [ProgressText (progress_percent (processed st + counted ?b) ?n)])
          @ loop_events env sel urls (processed st + counted ?b) (i + batchSize)
          = loop_events env sel urls (processed st) i"
      unfolding loop_events_def starts
      by (simp add: tl_eq cong: map_cong)
    have "batch_loop env sel urls i st = batch_loop env sel urls (i + batchSize) ?st'"
      using True by (subst batch_loop.simps) simp
    also have "\<dots> = advance ?st' (loop_results env sel urls (i + batchSize))
          (counted (drop (i + batchSize) urls))
          (loop_events env sel urls (processed ?st') (i + batchSize))"
      using "1.IH" [OF True] .
    also have "\<dots> = advance st (loop_results env sel urls i) (counted (drop i urls))
          (loop_events env sel urls (processed st) i)"
      unfolding st' advance_advance by (simp only: advance_simps res cnt ev)
    finally show ?thesis .
  qed
qed

subsection \<open>Evaluation, rounding, trimming and sorting\<close>

lemmas scenario_defs =
  browser_def serve_def ok_def html_page_def page_def tag_query_def
  performSearch_def trim_def is_whitespace_def search_body_def batch_loop.simps batchSize_def
  slice_def run_batch_def start_task_def complete_task_def eligible_def finally_block_def
  match_page_def countSelectorMatches_def query_selector_def update_progress_def
  Array_sort_def by_count_def begin_search_def onLoad_def js_or_def Let_def

text \<open>
  The percentages of the scenarios, and three that differ from the exactly rounded
  percentage because the double nearest to the quotient lies below it.
\<close>

lemmas double_defs =
  progress_percent_def double_div_def double_times_def to_double_def scale_def
  round_half_even_def Math_round_def bit_length.simps Let_def

lemma progress_numerals:
  "progress_percent 1 1 = 100" "progress_percent 2 1 = 200" "progress_percent 2 2 = 100"
  "progress_percent 3 2 = 150" "progress_percent 4 4 = 100" "progress_percent 6 6 = 100"
  "progress_percent 7 6 = 117" "progress_percent 5 12 = 42" "progress_percent 10 12 = 83"
  "progress_percent 12 12 = 100"
  by (simp_all add: double_defs)

lemma progress_values:
  "p = 1 \<Longrightarrow> t = 1 \<Longrightarrow> progress_percent p t = 100"
  "p = 2 \<Longrightarrow> t = 1 \<Longrightarrow> progress_percent p t = 200"
  "p = 2 \<Longrightarrow> t = 2 \<Longrightarrow> progress_percent p t = 100"
  "p = 3 \<Longrightarrow> t = 2 \<Longrightarrow> progress_percent p t = 150"
  "p = 4 \<Longrightarrow> t = 4 \<Longrightarrow> progress_percent p t = 100"
  "p = 6 \<Longrightarrow> t = 6 \<Longrightarrow> progress_percent p t = 100"
  "p = 7 \<Longrightarrow> t = 6 \<Longrightarrow> progress_percent p t = 117"
  "p = 5 \<Longrightarrow> t = 12 \<Longrightarrow> progress_percent p t = 42"
  "p = 10 \<Longrightarrow> t = 12 \<Longrightarrow> progress_percent p t = 83"
  "p = 12 \<Longrightarrow> t = 12 \<Longrightarrow> progress_percent p t = 100"
  by (simp_all only: progress_numerals)

lemma progress_percent_in_doubles:
  "progress_percent 115 200 = 57" "progress_percent 23 40 = 57" "progress_percent 29 200 = 14"
  by (simp_all add: double_defs)

lemma trim_eq_Nil_iff: "trim v = [] \<longleftrightarrow> (\<forall>c\<in>set v. is_whitespace c)"
proof
  assume "trim v = []"
  then have "dropWhile is_whitespace (rev (dropWhile is_whitespace v)) = []"
    by (simp add: trim_def)
  then have all: "\<forall>c\<in>set (dropWhile is_whitespace v). is_whitespace c"
    by (simp add: dropWhile_eq_Nil_conv)
  show "\<forall>c\<in>set v. is_whitespace c"
  proof (cases "dropWhile is_whitespace v")
    case Nil
    then show ?thesis by (simp add: dropWhile_eq_Nil_conv)
  next
    case (Cons c cs)
    then have "\<not> is_whitespace c" by (metis hd_dropWhile list.sel(1) list.distinct(1))
    moreover have "is_whitespace c" using all Cons by simp
    ultimately show ?thesis by simp
  qed
next
  assume "\<forall>c\<in>set v. is_whitespace c"
  then have "dropWhile is_whitespace v = []" by (simp add: dropWhile_eq_Nil_conv)
  then have "trim v = rev (dropWhile is_whitespace (rev []))" by (simp only: trim_def)
  then show "trim v = []" by simp
qed

lemma insert_by_count: "insert_by by_count x ys = insort_key (\<lambda>r. - int (res_count r)) x ys"
  by (induction ys) (simp_all add: by_count_def)

lemma Array_sort_by_count: "Array_sort by_count xs = sort_key (\<lambda>r. - int (res_count r)) xs"
proof -
  have "insert_by by_count = insort_key (\<lambda>r. - int (res_count r))"
    by (intro ext) (rule insert_by_count)
  then show ?thesis by (simp add: Array_sort_def sort_key_def)
qed

subsection \<open>The search as a whole\<close>

lemma performSearch_run:
  assumes "trim v \<noteq> []" "crawl_status env = Inr urls" "urls \<noteq> []"
  shows "performSearch env (Some v) s =
     (\<lparr>selector = trim v, isSearching = False,
       results = Array_sort by_count (loop_results env (trim v) urls 0), error = None\<rparr>,
      GetCrawlStatus # loop_events env (trim v) urls 0 0 @
        [if Array_sort by_count (loop_results env (trim v) urls 0) = []
         then Notification (Selector_not_found (trim v)) InfoKind
         else Notification (Found_on_pages (trim v)
                (length (Array_sort by_count (loop_results env (trim v) urls 0)))) SuccessKind])"
  using assms
  by (simp add: performSearch_def search_body_def batch_loop_advance begin_search_def Let_def)

lemma foldl_add_count: "foldl (\<lambda>sum r. sum + res_count r) a rs = a + sum_list (map res_count rs)"
  by (induction rs arbitrary: a) simp_all

lemma countSelectorMatches_never_throws: "countSelectorMatches parse qsa markup sel \<noteq> Inl e"
  by (simp add: countSelectorMatches_def split: sum.splits)

lemma countSelectorMatches_invalid:
  "parse markup = Inr doc \<Longrightarrow> qsa doc sel = Inl e \<Longrightarrow> countSelectorMatches parse qsa markup sel = Inr 0"
  by (simp add: countSelectorMatches_def query_selector_def)

text \<open>\<^verbatim>\<open>performSearch\<close> never reads the flag.\<close>

lemma performSearch_ignores_flag:
  "snd (performSearch env input (s\<lparr>isSearching := b\<rparr>)) = snd (performSearch env input s)"
  by (simp add: performSearch_def Let_def split: option.splits sum.splits)

lemma page_result_fields:
  assumes "r \<in> set (page_result env sel urlData)"
  shows "res_url r = url urlData \<and> res_title r = js_or (title urlData) (Str (url urlData))
    \<and> res_status_code r = status_code urlData \<and> 0 < res_count r"
  using assms
  by (auto simp: page_result_def match_page_def split: sum.splits if_splits)

lemma set_completions: "set (completions env i batch) = {urlData \<in> set batch. eligible urlData}"
  by (simp add: completions_def)

lemma set_slice_subset: "set (slice i j xs) \<subseteq> set xs"
proof -
  have "set (take (j - i) (drop i xs)) \<subseteq> set (drop i xs)" by (rule set_take_subset)
  also have "\<dots> \<subseteq> set xs" by (rule set_drop_subset)
  finally show ?thesis by (simp add: slice_def)
qed

lemma loop_results_origin:
  assumes "r \<in> set (loop_results env sel urls i)"
  shows "\<exists>urlData\<in>set urls. eligible urlData \<and> r \<in> set (page_result env sel urlData)"
proof -
  from assms obtain j urlData where
    "urlData \<in> set (completions env j (slice j (j + batchSize) urls))"
    and r: "r \<in> set (page_result env sel urlData)"
    by (auto simp: loop_results_def batch_results_def)
  then have "urlData \<in> set urls" "eligible urlData"
    using set_slice_subset [of j "j + batchSize" urls] by (auto simp: set_completions)
  with r show ?thesis by blast
qed

lemma set_Array_sort_by_count: "set (Array_sort by_count xs) = set xs"
  by (simp add: Array_sort_by_count)

subsection \<open>A failing page\<close>

lemma with_outcome_simps [simp]:
  "crawl_status (with_outcome env u out) = crawl_status env"
  "fetch_html (with_outcome env u out) = (fetch_html env)(u := out)"
  "parseFromString (with_outcome env u out) = parseFromString env"
  "querySelectorAll (with_outcome env u out) = querySelectorAll env"
  "completion_order (with_outcome env u out) = completion_order env"
  by (simp_all add: with_outcome_def)

lemma page_result_failed:
  assumes "page_fails env out" "fetch_html env (url urlData) = out"
  shows "page_result env sel urlData = []"
proof (cases out)
  case (Inl e)
  then show ?thesis using assms(2) by (simp add: page_result_def match_page_def)
next
  case (Inr resp)
  show ?thesis
  proof (cases "success resp \<and> truthy (html resp)")
    case False
    then show ?thesis using assms(2) Inr by (auto simp: page_result_def match_page_def)
  next
    case True
    then have "isl (parseFromString env (or_empty (html resp)))"
      using assms(1) Inr by (simp add: page_fails_def)
    then have "countSelectorMatches (parseFromString env) (querySelectorAll env)
        (or_empty (html resp)) sel = Inr 0"
      by (auto simp: countSelectorMatches_def isl_def)
    then show ?thesis using assms(2) Inr True by (simp add: page_result_def match_page_def)
  qed
qed

lemma page_result_with_outcome:
  assumes "page_fails env out"
  shows "page_result (with_outcome env u out) sel urlData
    = filter (\<lambda>r. res_url r \<noteq> u) (page_result env sel urlData)"
proof (cases "url urlData = u")
  case True
  have "page_fails (with_outcome env u out) out"
    using assms unfolding page_fails_def with_outcome_simps .
  moreover have "fetch_html (with_outcome env u out) (url urlData) = out"
    using True by simp
  ultimately have "page_result (with_outcome env u out) sel urlData = []"
    by (rule page_result_failed)
  moreover have "filter (\<lambda>r. res_url r \<noteq> u) (page_result env sel urlData) = []"
    using True page_result_fields [of _ env sel urlData] by (auto simp: filter_empty_conv)
  ultimately show ?thesis by simp
next
  case False
  then have "match_page (with_outcome env u out) sel urlData = match_page env sel urlData"
    unfolding match_page_def with_outcome_simps by simp
  then have "page_result (with_outcome env u out) sel urlData = page_result env sel urlData"
    by (simp add: page_result_def)
  moreover have "filter (\<lambda>r. res_url r \<noteq> u) (page_result env sel urlData) = page_result env sel urlData"
    using False page_result_fields [of _ env sel urlData] by (auto simp: filter_id_conv)
  ultimately show ?thesis by simp
qed

lemma completions_with_outcome [simp]:
  "completions (with_outcome env u out) i batch = completions env i batch"
  by (simp add: completions_def)

lemma loop_results_with_outcome:
  assumes "page_fails env out"
  shows "loop_results (with_outcome env u out) sel urls i
    = filter (\<lambda>r. res_url r \<noteq> u) (loop_results env sel urls i)"
proof -
  have "page_result (with_outcome env u out) sel
      = (\<lambda>urlData. filter (\<lambda>r. res_url r \<noteq> u) (page_result env sel urlData))"
    by (intro ext) (rule page_result_with_outcome [OF assms])
  then show ?thesis
    by (simp add: loop_results_def batch_results_def filter_concat comp_def)
qed

lemma filter_Array_sort_by_count:
  "filter P (Array_sort by_count xs) = Array_sort by_count (filter P xs)"
  by (simp add: Array_sort_by_count filter_sort)

lemma search_body_processed:
  "\<exists>st. search_body env sel urls = Inr st \<and> processed st = counted urls"
  by (simp add: search_body_def batch_loop_advance)

subsection \<open>Batches, order and progress\<close>

lemma batches_concat:
  "n = length urls \<Longrightarrow>
     concat (map (\<lambda>j. slice j (j + batchSize) urls) (batch_starts i n)) = drop i urls"
proof (induction i n rule: batch_starts.induct)
  case (1 i n)
  show ?case
  proof (cases "i < n")
    case True
    then have "batch_starts i n = i # batch_starts (i + batchSize) n"
      by (subst batch_starts.simps) simp
    then show ?thesis
      using "1.IH" [OF True "1.prems"] slice_drop [of i "i + batchSize" urls] by simp
  next
    case False
    then show ?thesis using "1.prems" by (simp add: batch_starts.simps)
  qed
qed

lemma concat_map_concat: "concat (map (\<lambda>j. concat (map f (g j))) js) = concat (map f (concat (map g js)))"
  by (induction js) simp_all

lemma in_order_completions:
  "completion_order env i = [] \<Longrightarrow> completions env i batch = filter eligible batch"
  by (simp add: completions_def settle_order_Nil_picks)

lemma loop_results_in_order:
  assumes "\<forall>j. completion_order env j = []"
  shows "loop_results env sel urls 0 = concat (map (page_result env sel) (filter eligible urls))"
proof -
  have "loop_results env sel urls 0
      = concat (map (\<lambda>j. concat (map (page_result env sel) (filter eligible (slice j (j + batchSize) urls))))
          (batch_starts 0 (length urls)))"
    using assms by (simp add: loop_results_def batch_results_def in_order_completions)
  also have "\<dots> = concat (map (page_result env sel)
        (concat (map (\<lambda>j. filter eligible (slice j (j + batchSize) urls)) (batch_starts 0 (length urls)))))"
    by (rule concat_map_concat)
  also have "concat (map (\<lambda>j. filter eligible (slice j (j + batchSize) urls)) (batch_starts 0 (length urls)))
      = filter eligible (concat (map (\<lambda>j. slice j (j + batchSize) urls) (batch_starts 0 (length urls))))"
    by (simp add: filter_concat comp_def)
  also have "\<dots> = filter eligible urls"
    by (simp add: batches_concat)
  finally show ?thesis .
qed

lemma sorted_Array_sort_by_count:
  "sorted_wrt (\<lambda>a b. res_count b \<le> res_count a) (Array_sort by_count xs)"
proof -
  have "sorted (map (\<lambda>r. - int (res_count r)) (sort_key (\<lambda>r. - int (res_count r)) xs))"
    by (rule sorted_sort_key)
  then show ?thesis by (simp add: Array_sort_by_count sorted_map)
qed

lemma stable_Array_sort_by_count:
  "filter (\<lambda>r. res_count r = c) (Array_sort by_count xs) = filter (\<lambda>r. res_count r = c) xs"
  using sort_key_stable [of "\<lambda>r. - int (res_count r)" "- int c" xs]
  by (simp add: Array_sort_by_count)

lemma mset_Array_sort_by_count: "mset (Array_sort by_count xs) = mset xs"
  by (simp add: Array_sort_by_count)

lemma no_progress_in_batch: "filter is_progress (batch_events env sel j batch) = []"
proof -
  have "\<not> is_progress (start_event urlData)" for urlData
    by (simp add: start_event_def)
  moreover have "e \<in> set (completion_events env sel urlData) \<Longrightarrow> \<not> is_progress e" for e urlData
    by (auto simp: completion_events_def split: sum.splits)
  ultimately show ?thesis
    by (auto simp: batch_events_def filter_empty_conv)
qed

lemma filter_concat_snoc:
  assumes "\<And>j. filter P (f j) = []" "\<And>j. P (g j)"
  shows "filter P (concat (map (\<lambda>j. f j @ [g j]) js)) = map g js"
  using assms by (induction js) simp_all

lemma progress_of_loop_events:
  "filter is_progress (loop_events env sel urls p i)
     = map (\<lambda>j. ProgressText (progress_percent (p + counted (slice i (j + batchSize) urls)) (length urls)))
         (batch_starts i (length urls))"
  unfolding loop_events_def
  by (rule filter_concat_snoc) (simp_all add: no_progress_in_batch)

lemma counted_all_eligible: "list_all eligible xs \<Longrightarrow> counted xs = length xs"
  by (simp add: counted_def list_all_iff filter_empty_conv)

lemma list_all_slice: "list_all P xs \<Longrightarrow> list_all P (slice i j xs)"
  using set_slice_subset [of i j xs] by (auto simp: list_all_iff)

lemma length_slice: "length (slice i j xs) = min (j - i) (length xs - i)"
  by (simp add: slice_def min_def)

lemma batch_starts_closed:
  "batch_starts i n = map (\<lambda>k. i + k * batchSize) [0..<(n - i + 4) div batchSize]"
proof (induction i n rule: batch_starts.induct)
  case (1 i n)
  show ?case
  proof (cases "i < n")
    case False
    then show ?thesis by (simp add: batch_starts.simps batchSize_def)
  next
    case True
    let ?m = "(n - (i + batchSize) + 4) div batchSize"
    have count: "(n - i + 4) div batchSize = Suc ?m"
    proof (cases "i + batchSize \<le> n")
      case True
      then have "n - i + 4 = (n - (i + batchSize) + 4) + batchSize" by simp
      then show ?thesis by (simp only: div_add_self2) (simp add: batchSize_def)
    next
      case False
      with \<open>i < n\<close> have "batchSize * 1 \<le> n - i + 4" "n - i + 4 < batchSize * Suc 1"
        by (simp_all add: batchSize_def)
      then have "(n - i + 4) div batchSize = 1" by (rule div_nat_eqI)
      moreover have "?m = 0" using False by (simp add: batchSize_def)
      ultimately show ?thesis by (simp only: One_nat_def)
    qed
    have "batch_starts i n = i # batch_starts (i + batchSize) n"
      using True by (subst batch_starts.simps) simp
    also have "\<dots> = i # map (\<lambda>k. i + batchSize + k * batchSize) [0..<?m]"
      using "1.IH" [OF True] by simp
    also have "\<dots> = map (\<lambda>k. i + k * batchSize) (0 # map Suc [0..<?m])"
      by (simp add: comp_def add.assoc)
    also have "0 # map Suc [0..<?m] = [0..<Suc ?m]"
      by (simp only: map_Suc_upt upt_conv_Cons [of 0 "Suc ?m"] zero_less_Suc)
    finally show ?thesis by (simp only: count)
  qed
qed

lemma processed_run_batch_mono: "processed st \<le> processed (run_batch env sel i batch st)"
  by (simp add: run_batch_advance)

lemma processed_batch_loop_mono: "processed st \<le> processed (batch_loop env sel urls i st)"
  by (simp add: batch_loop_advance)

lemma trace_search_body:
  "\<exists>st. search_body env sel urls = Inr st \<and> l_results st = loop_results env sel urls 0
      \<and> processed st = counted urls \<and> trace st = loop_events env sel urls 0 0"
  by (simp add: search_body_def batch_loop_advance)


lemma twelve_facts:
  "length twelve = 12" "list_all eligible twelve" "twelve \<noteq> []"
  by (simp_all add: twelve_def twelve_urls_def html_page_def page_def eligible_def)

lemma batch_starts_12: "batch_starts 0 12 = [0, 5, 10]"
  by (simp add: batch_starts.simps batchSize_def)

text \<open>
  With a selector that the engine rejects on every document, every page contributes
  nothing and the search completes with no result and no error.
\<close>

lemma rejected_selector_counts_zero:
  assumes "\<And>doc. isl (qsa doc sel)"
  shows "countSelectorMatches parse qsa markup sel = Inr 0"
proof (cases "parse markup")
  case (Inl e)
  then show ?thesis by (simp add: countSelectorMatches_def)
next
  case (Inr doc)
  obtain e where "qsa doc sel = Inl e"
    using assms [of doc] by (auto simp: isl_def)
  with Inr show ?thesis by (rule countSelectorMatches_invalid)
qed

lemma rejected_selector_run:
  assumes "\<And>doc. isl (querySelectorAll env doc (trim v))"
    and "trim v \<noteq> []" "crawl_status env = Inr urls" "urls \<noteq> []"
  shows "fst (performSearch env (Some v) s)
    = \<lparr>selector = trim v, isSearching = False, results = [], error = None\<rparr>"
proof -
  have "page_result env (trim v) urlData = []" for urlData
    using rejected_selector_counts_zero [of "querySelectorAll env" "trim v" "parseFromString env", OF assms(1)]
    by (simp add: page_result_def match_page_def split: sum.splits)
  then have "loop_results env (trim v) urls 0 = []"
    by (simp add: loop_results_def batch_results_def)
  then show ?thesis
    by (simp add: performSearch_run [OF assms(2-4)] Array_sort_def)
qed

text \<open>Only eligible pages of the inventory are fetched.\<close>

lemma fetches_are_eligible:
  assumes "PostFetchHtml u \<in> set (loop_events env sel urls p i)"
  shows "\<exists>urlData\<in>set urls. eligible urlData \<and> url urlData = u"
proof -
  have "PostFetchHtml u \<notin> set (completion_events env sel urlData)" for urlData
    by (simp add: completion_events_def split: sum.splits)
  with assms obtain j urlData where "urlData \<in> set (slice j (j + batchSize) urls)"
    and "start_event urlData = PostFetchHtml u"
    by (auto simp: loop_events_def batch_events_def)
  then have "urlData \<in> set urls" "eligible urlData \<and> url urlData = u"
    using set_slice_subset [of j "j + batchSize" urls]
    by (auto simp: start_event_def split: if_splits)
  then show ?thesis by blast
qed

subsection \<open>The counter when the progress is published\<close>

lemma processed_update_progress [simp]: "processed (update_progress n st) = processed st"
  by (simp add: update_progress_def)

lemma processed_snapshots:
  "map processed (batch_snapshots env sel urls i st)
     = map (\<lambda>j. processed st + counted (slice i (j + batchSize) urls))
         (batch_starts i (length urls))"
proof (induction env sel urls i st rule: batch_snapshots.induct)
  case (1 env sel urls i st)
  show ?case
  proof (cases "i < length urls")
    case False
    then show ?thesis by (simp add: batch_snapshots.simps batch_starts.simps)
  next
    case True
    let ?b = "slice i (i + batchSize) urls"
    let ?st1 = "run_batch env sel i ?b st"
    have starts: "batch_starts i (length urls) = i # batch_starts (i + batchSize) (length urls)"
      using True by (subst batch_starts.simps) simp
    have snaps: "batch_snapshots env sel urls i st
        = ?st1 # batch_snapshots env sel urls (i + batchSize) (update_progress (length urls) ?st1)"
      using True by (subst batch_snapshots.simps) simp
    have p1: "processed ?st1 = processed st + counted ?b"
      by (simp add: run_batch_advance)
    have tl_eq: "processed st + counted ?b + counted (slice (i + batchSize) (j + batchSize) urls)
          = processed st + counted (slice i (j + batchSize) urls)"
      if "j \<in> set (batch_starts (i + batchSize) (length urls))" for j
    proof -
      have "i + batchSize \<le> j" using batch_starts_bounds [OF that] by simp
      then have "slice i (j + batchSize) urls = ?b @ slice (i + batchSize) (j + batchSize) urls"
        by (intro slice_append) simp_all
      then show ?thesis by (simp add: counted_append)
    qed
    have "map processed (batch_snapshots env sel urls (i + batchSize) (update_progress (length urls) ?st1))
        = map (\<lambda>j. processed st + counted (slice i (j + batchSize) urls))
            (batch_starts (i + batchSize) (length urls))"
      using "1.IH" [OF True] by (simp add: p1 tl_eq cong: map_cong)
    then show ?thesis by (simp add: snaps starts p1)
  qed
qed

lemma length_snapshots:
  "length (batch_snapshots env sel urls i st) = length (batch_starts i (length urls))"
  using arg_cong [OF processed_snapshots [of env sel urls i st], of length] by simp

lemma progress_of_snapshots:
  "filter is_progress (loop_events env sel urls (processed st) i)
     = map (\<lambda>s. ProgressText (progress_percent (processed s) (length urls)))
         (batch_snapshots env sel urls i st)"
proof -
  have "map (\<lambda>s. ProgressText (progress_percent (processed s) (length urls)))
          (batch_snapshots env sel urls i st)
      = map (\<lambda>k. ProgressText (progress_percent k (length urls)))
          (map processed (batch_snapshots env sel urls i st))"
    by (simp add: comp_def)
  then show ?thesis
    by (simp add: processed_snapshots progress_of_loop_events comp_def)
qed

lemma snapshot_not_below:
  assumes "s \<in> set (batch_snapshots env sel urls i st)"
  shows "processed st \<le> processed s"
proof -
  have "processed s \<in> set (map processed (batch_snapshots env sel urls i st))"
    using assms by simp
  then show ?thesis unfolding processed_snapshots by auto
qed

lemma sorted_snapshots: "sorted (map processed (batch_snapshots env sel urls i st))"
proof (induction env sel urls i st rule: batch_snapshots.induct)
  case (1 env sel urls i st)
  show ?case
  proof (cases "i < length urls")
    case False
    then show ?thesis by (simp add: batch_snapshots.simps)
  next
    case True
    let ?st1 = "run_batch env sel i (slice i (i + batchSize) urls) st"
    have snaps: "batch_snapshots env sel urls i st
        = ?st1 # batch_snapshots env sel urls (i + batchSize) (update_progress (length urls) ?st1)"
      using True by (subst batch_snapshots.simps) simp
    have "processed ?st1 \<le> processed s"
      if "s \<in> set (batch_snapshots env sel urls (i + batchSize) (update_progress (length urls) ?st1))"
      for s
      using snapshot_not_below [OF that] by simp
    then show ?thesis using "1.IH" [OF True] by (simp add: snaps)
  qed
qed

lemma last_batch_start:
  "batch_starts i n \<noteq> [] \<Longrightarrow> n \<le> last (batch_starts i n) + batchSize"
proof (induction i n rule: batch_starts.induct)
  case (1 i n)
  have lt: "i < n" using "1.prems" by (subst (asm) batch_starts.simps) (simp split: if_splits)
  then have starts: "batch_starts i n = i # batch_starts (i + batchSize) n"
    by (subst batch_starts.simps) simp
  show ?case
  proof (cases "batch_starts (i + batchSize) n = []")
    case True
    then have "\<not> i + batchSize < n"
      by (subst (asm) batch_starts.simps) (simp split: if_splits)
    then show ?thesis using True by (simp add: starts)
  next
    case False
    then show ?thesis using "1.IH" [OF lt False] by (simp add: starts)
  qed
qed

lemma last_snapshot:
  assumes "urls \<noteq> []"
  shows "processed (last (batch_snapshots env sel urls 0 st)) = processed st + counted urls"
proof -
  have ne: "batch_starts 0 (length urls) \<noteq> []"
    using assms by (subst batch_starts.simps) simp
  then have sne: "batch_snapshots env sel urls 0 st \<noteq> []"
    using length_snapshots [of env sel urls 0 st] by auto
  have "processed (last (batch_snapshots env sel urls 0 st))
      = last (map processed (batch_snapshots env sel urls 0 st))"
    using sne by (simp add: last_map)
  also have "\<dots> = processed st
      + counted (slice 0 (last (batch_starts 0 (length urls)) + batchSize) urls)"
    unfolding processed_snapshots using ne by (simp add: last_map)
  also have "slice 0 (last (batch_starts 0 (length urls)) + batchSize) urls = urls"
    using last_batch_start [OF ne] by (simp add: slice_def)
  finally show ?thesis .
qed

section \<open>The claims\<close>

text \<open>
  Claim C1. A selector that the engine rejects does not make the matcher fail: the
  \<^verbatim>\<open>Error\<close> built at line 268 is caught by the enclosing handler of line 270, the
  matcher returns \<open>0\<close>, and the run ends as a completed search with no match and no
  error. Shown on the page \<open>/a\<close> with markup \<open><p></p>\<close> and the selector \<open>div >\<close>.
\<close>

theorem invalid_selector_swallowed:
  "tag_query ''<p></p>'' ''div >'' = Inl (Error ''SyntaxError'') \<and>
   query_selector tag_query ''<p></p>'' ''div >'' = Inl (Error ''Invalid CSS selector: div >'') \<and>
   countSelectorMatches Inr tag_query ''<p></p>'' ''div >'' = Inr 0 \<and>
   performSearch (browser [html_page ''/a''] [(''/a'', ok ''<p></p>'')] (\<lambda>i. [])) (Some ''div >'') onLoad
     = (\<lparr>selector = ''div >'', isSearching = False, results = [], error = None\<rparr>,
        [GetCrawlStatus, PostFetchHtml ''/a'', TaskSettled ''/a'', ProgressText 100,
         Notification (Selector_not_found ''div >'') InfoKind])"
  by (simp add: scenario_defs progress_values)

text \<open>
  Claim C2, as stated, fails: two pages of one batch with equal counts appear in the
  order in which their fetches completed. Here \<open>/b\<close> completes before \<open>/a\<close>.
\<close>

theorem ties_follow_completion_order:
  "map url [html_page ''/a'', html_page ''/b''] = [''/a'', ''/b''] \<and>
   map res_url (results (fst (performSearch
      (browser [html_page ''/a'', html_page ''/b'']
         [(''/a'', ok ''<h1>x</h1>''), (''/b'', ok ''<h1>y</h1>'')] (\<lambda>i. [1]))
      (Some ''h1'') onLoad))) = [''/b'', ''/a''] \<and>
   map res_count (results (fst (performSearch
      (browser [html_page ''/a'', html_page ''/b'']
         [(''/a'', ok ''<h1>x</h1>''), (''/b'', ok ''<h1>y</h1>'')] (\<lambda>i. [1]))
      (Some ''h1'') onLoad))) = [1, 1]"
  by (simp add: scenario_defs progress_values)

text \<open>
  Claim C2, amended. The results of a search are sorted by count, largest first. They
  are a rearrangement of the entries pushed during the run, and entries with equal
  counts keep the order in which they were pushed: batch after batch, and within a
  batch in the order in which the fetches completed. When the fetches of every batch
  complete in the order of the inventory, that is the order of the inventory.
\<close>

theorem results_sorted_stably:
  assumes "trim v \<noteq> []" "crawl_status env = Inr urls" "urls \<noteq> []"
  shows "sorted_wrt (\<lambda>a b. res_count b \<le> res_count a) (results (fst (performSearch env (Some v) s)))
    \<and> (\<exists>st. search_body env (trim v) urls = Inr st
          \<and> mset (results (fst (performSearch env (Some v) s))) = mset (l_results st)
          \<and> (\<forall>c. filter (\<lambda>r. res_count r = c) (results (fst (performSearch env (Some v) s)))
                   = filter (\<lambda>r. res_count r = c) (l_results st))
          \<and> l_results st
              = concat (map (\<lambda>j. concat (map (page_result env (trim v))
                                     (settle_order (completion_order env j)
                                        (filter eligible (slice j (j + batchSize) urls)))))
                          (batch_starts 0 (length urls)))
          \<and> ((\<forall>j. completion_order env j = []) \<longrightarrow>
                l_results st = concat (map (page_result env (trim v)) (filter eligible urls))))"
proof -
  let ?st = "batch_loop env (trim v) urls 0 \<lparr>l_results = [], processed = 0, trace = []\<rparr>"
  have res: "results (fst (performSearch env (Some v) s))
      = Array_sort by_count (loop_results env (trim v) urls 0)"
    by (simp add: performSearch_run [OF assms])
  have body: "search_body env (trim v) urls = Inr ?st"
    by (simp add: search_body_def)
  have pushed: "l_results ?st = loop_results env (trim v) urls 0"
    by (simp add: batch_loop_advance)
  have "sorted_wrt (\<lambda>a b. res_count b \<le> res_count a) (results (fst (performSearch env (Some v) s)))"
    unfolding res by (rule sorted_Array_sort_by_count)
  moreover have "mset (results (fst (performSearch env (Some v) s))) = mset (l_results ?st)"
    unfolding res pushed by (rule mset_Array_sort_by_count)
  moreover have "\<forall>c. filter (\<lambda>r. res_count r = c) (results (fst (performSearch env (Some v) s)))
                   = filter (\<lambda>r. res_count r = c) (l_results ?st)"
    unfolding res pushed by (simp add: stable_Array_sort_by_count)
  moreover have "l_results ?st
              = concat (map (\<lambda>j. concat (map (page_result env (trim v))
                                     (settle_order (completion_order env j)
                                        (filter eligible (slice j (j + batchSize) urls)))))
                          (batch_starts 0 (length urls)))"
    unfolding pushed by (simp add: loop_results_def batch_results_def completions_def)
  moreover have "(\<forall>j. completion_order env j = []) \<longrightarrow>
                l_results ?st = concat (map (page_result env (trim v)) (filter eligible urls))"
    unfolding pushed using loop_results_in_order by blast
  ultimately show ?thesis using body by blast
qed

theorem results_sorted_stably_witness:
  "trim ''h1'' \<noteq> [] \<and> four \<noteq> [] \<and>
   sorted_wrt (\<lambda>a b. res_count b \<le> res_count a)
     (results (fst (performSearch (browser four four_served (\<lambda>i. [])) (Some ''h1'') onLoad))) \<and>
   map res_count (results (fst (performSearch (browser four four_served (\<lambda>i. [])) (Some ''h1'') onLoad)))
     = [5, 2, 2] \<and>
   map res_url (results (fst (performSearch (browser four four_served (\<lambda>i. [])) (Some ''h1'') onLoad)))
     = [''/c'', ''/a'', ''/d''] \<and>
   totalMatches (results (fst (performSearch (browser four four_served (\<lambda>i. [])) (Some ''h1'') onLoad))) = 9"
proof -
  have h1: "trim ''h1'' \<noteq> []" by (simp add: trim_def is_whitespace_def)
  have h2: "crawl_status (browser four four_served (\<lambda>i. [])) = Inr four" by (simp add: browser_def)
  have h3: "four \<noteq> []" by (simp add: four_def)
  have "sorted_wrt (\<lambda>a b. res_count b \<le> res_count a)
     (results (fst (performSearch (browser four four_served (\<lambda>i. [])) (Some ''h1'') onLoad)))"
    using results_sorted_stably [OF h1 h2 h3] by (rule conjunct1)
  moreover have "results (fst (performSearch (browser four four_served (\<lambda>i. [])) (Some ''h1'') onLoad))
      = [\<lparr>res_url = ''/c'', res_title = Str ''/c'', res_count = 5, res_status_code = 200\<rparr>,
         \<lparr>res_url = ''/a'', res_title = Str ''/a'', res_count = 2, res_status_code = 200\<rparr>,
         \<lparr>res_url = ''/d'', res_title = Str ''/d'', res_count = 2, res_status_code = 200\<rparr>]"
    by (simp add: scenario_defs four_def four_served_def progress_values)
  ultimately show ?thesis using h1 h3 by (simp add: totalMatches_def)
qed

text \<open>
  Claim C3, as stated, fails where the inventory has a page that is not eligible: the
  percentage is taken over the whole inventory, and the counter does not end at the
  number of eligible pages. With one eligible page and one page of status 404 the
  counter ends at \<open>3\<close> and the progress shown is 150. And the progress is set once for
  the batch, not once for each page: when two eligible pages have settled, 100 is the
  only percentage that was shown. And the percentage is computed in double precision:
  for 115 pages of 200 it is 57, where the exact quotient rounds to 58.
\<close>

theorem progress_counts_whole_inventory:
  "length (filter eligible [html_page ''/a'', page ''/b'' 404 (Str ''text/html'') Null]) = 1 \<and>
   search_body (browser [html_page ''/a'', page ''/b'' 404 (Str ''text/html'') Null]
                  [(''/a'', ok ''<h1>x</h1>'')] (\<lambda>i. [])) ''h1''
       [html_page ''/a'', page ''/b'' 404 (Str ''text/html'') Null]
     = Inr \<lparr>l_results = [\<lparr>res_url = ''/a'', res_title = Str ''/a'', res_count = 1,
                            res_status_code = 200\<rparr>],
            processed = 3,
            trace = [PostFetchHtml ''/a'', TaskSettled ''/b'', TaskSettled ''/a'', ProgressText 150]\<rparr> \<and>
   search_body (browser [html_page ''/a'', html_page ''/b'']
                  [(''/a'', ok ''<h1>x</h1>''), (''/b'', ok ''<h1>y</h1>'')] (\<lambda>i. [])) ''h2''
       [html_page ''/a'', html_page ''/b'']
     = Inr \<lparr>l_results = [], processed = 2,
            trace = [PostFetchHtml ''/a'', PostFetchHtml ''/b'', TaskSettled ''/a'', TaskSettled ''/b'',
                     ProgressText 100]\<rparr> \<and>
   progress_percent 115 200 = 57"
  by (simp add: scenario_defs progress_values progress_percent_in_doubles)

text \<open>
  Claim C3, amended. The task of a page whose fetch settles, with or without success,
  increments \<open>processed\<close> exactly once, and the counter never decreases over a batch,
  over the loop, or from one batch to the next. The progress is set once after each
  batch, to \<^verbatim>\<open>Math.round((processed / totalUrls) * 100)\<close> as double-precision
  arithmetic computes it, where \<open>processed\<close> is the counter as that batch leaves it and
  \<open>totalUrls\<close> is the length of the whole inventory; the counter at the end of the run
  is the one the last batch leaves. When every page of the inventory is eligible, the
  counter after a batch is the number of pages in the batches so far, and it ends at
  the length of the inventory, which is then the number of eligible pages.
\<close>

theorem progress_over_eligible_inventory:
  assumes "urls \<noteq> []"
  shows "processed (complete_task env sel urlData st) = processed st + 1
    \<and> processed st \<le> processed (run_batch env sel i batch st)
    \<and> processed st \<le> processed (batch_loop env sel urls i st)
    \<and> (\<exists>st' snaps. search_body env sel urls = Inr st'
          \<and> snaps = batch_snapshots env sel urls 0 \<lparr>l_results = [], processed = 0, trace = []\<rparr>
          \<and> length snaps = length (batch_starts 0 (length urls))
          \<and> filter is_progress (trace st')
              = map (\<lambda>s. ProgressText (progress_percent (processed s) (length urls))) snaps
          \<and> sorted (map processed snaps)
          \<and> processed st' = processed (last snaps)
          \<and> (list_all eligible urls \<longrightarrow>
                length (filter eligible urls) = length urls
                \<and> map processed snaps
                    = map (\<lambda>j. min (j + batchSize) (length urls)) (batch_starts 0 (length urls))
                \<and> processed st' = length urls))"
proof -
  let ?st0 = "\<lparr>l_results = [], processed = 0, trace = []\<rparr>"
  let ?snaps = "batch_snapshots env sel urls 0 ?st0"
  obtain st' where body: "search_body env sel urls = Inr st'"
    and p: "processed st' = counted urls" and t: "trace st' = loop_events env sel urls 0 0"
    using trace_search_body by blast
  have len: "length ?snaps = length (batch_starts 0 (length urls))"
    by (rule length_snapshots)
  have prog: "filter is_progress (trace st')
      = map (\<lambda>s. ProgressText (progress_percent (processed s) (length urls))) ?snaps"
    using progress_of_snapshots [of env sel urls ?st0 0] by (simp add: t)
  have srt: "sorted (map processed ?snaps)"
    by (rule sorted_snapshots)
  have lst: "processed st' = processed (last ?snaps)"
    using last_snapshot [OF assms, of env sel ?st0] p by simp
  have elig: "length (filter eligible urls) = length urls
      \<and> map processed ?snaps
          = map (\<lambda>j. min (j + batchSize) (length urls)) (batch_starts 0 (length urls))
      \<and> processed st' = length urls" if all: "list_all eligible urls"
  proof -
    have "counted (slice 0 (j + batchSize) urls) = min (j + batchSize) (length urls)" for j
      using counted_all_eligible [OF list_all_slice [OF all], of 0 "j + batchSize"]
      by (simp add: length_slice)
    then have "map processed ?snaps
        = map (\<lambda>j. min (j + batchSize) (length urls)) (batch_starts 0 (length urls))"
      by (simp add: processed_snapshots)
    moreover have "processed st' = length urls"
      using p counted_all_eligible [OF all] by simp
    moreover have "length (filter eligible urls) = length urls"
      using all by (simp add: list_all_iff)
    ultimately show ?thesis by blast
  qed
  have "processed (complete_task env sel urlData st) = processed st + 1"
    by (simp add: complete_task_advance)
  then show ?thesis
    using body len prog srt lst elig processed_run_batch_mono processed_batch_loop_mono by blast
qed

theorem progress_over_eligible_inventory_witness:
  "twelve \<noteq> [] \<and> list_all eligible twelve \<and>
   (\<exists>st'. search_body (browser twelve three_headings (\<lambda>i. [])) ''h1'' twelve = Inr st'
      \<and> processed st' = 12
      \<and> filter is_progress (trace st') = [ProgressText 42, ProgressText 83, ProgressText 100])"
proof -
  note ex = progress_over_eligible_inventory [OF twelve_facts(3),
      where env = "browser twelve three_headings (\<lambda>i. [])" and sel = "''h1''",
      THEN conjunct2, THEN conjunct2, THEN conjunct2]
  have "\<exists>st'. search_body (browser twelve three_headings (\<lambda>i. [])) ''h1'' twelve = Inr st'
      \<and> processed st' = 12
      \<and> filter is_progress (trace st') = [ProgressText 42, ProgressText 83, ProgressText 100]"
    using ex
  proof (elim exE conjE)
    fix st' snaps
    assume body: "search_body (browser twelve three_headings (\<lambda>i. [])) ''h1'' twelve = Inr st'"
      and prog: "filter is_progress (trace st')
          = map (\<lambda>s. ProgressText (progress_percent (processed s) (length twelve))) snaps"
      and el: "list_all eligible twelve \<longrightarrow>
           length (filter eligible twelve) = length twelve
           \<and> map processed snaps
               = map (\<lambda>j. min (j + batchSize) (length twelve)) (batch_starts 0 (length twelve))
           \<and> processed st' = length twelve"
    have m: "map (\<lambda>s. ProgressText (progress_percent (processed s) (length twelve))) snaps
        = map (\<lambda>k. ProgressText (progress_percent k (length twelve))) (map processed snaps)"
      by (simp add: comp_def)
    from el twelve_facts(2)
    have e2: "map processed snaps
        = map (\<lambda>j. min (j + batchSize) (length twelve)) (batch_starts 0 (length twelve))"
      and e3: "processed st' = length twelve"
      by simp_all
    have "filter is_progress (trace st') = [ProgressText 42, ProgressText 83, ProgressText 100]"
      unfolding prog m e2
      by (simp add: twelve_facts(1) batch_starts_12 batchSize_def progress_values)
    with body e3 show ?thesis
      by (intro exI [of _ st'] conjI) (simp_all add: twelve_facts(1))
  qed
  then show ?thesis using twelve_facts by blast
qed

text \<open>
  Claim C4, as stated, fails for \<^verbatim>\<open>performSearch\<close> itself: called on a session
  whose flag \<open>isSearching\<close> is set, it does not refuse, it runs the search.
\<close>

theorem running_search_not_refused:
  "isSearching (begin_search ''p'' onLoad) \<and>
   performSearch (browser [html_page ''/a''] [(''/a'', ok ''<h1></h1>'')] (\<lambda>i. [])) (Some ''h1'')
       (begin_search ''p'' onLoad)
     = (\<lparr>selector = ''h1'', isSearching = False,
         results = [\<lparr>res_url = ''/a'', res_title = Str ''/a'', res_count = 1, res_status_code = 200\<rparr>],
         error = None\<rparr>,
        [GetCrawlStatus, PostFetchHtml ''/a'', TaskSettled ''/a'', ProgressText 100,
         Notification (Found_on_pages ''h1'' 1) SuccessKind])"
  by (simp add: scenario_defs progress_values)

text \<open>
  Claim C4, amended. While \<open>isSearching\<close> is set, no event of the page calls
  \<^verbatim>\<open>performSearch\<close>: the input and the button are rendered disabled and the
  \<^verbatim>\<open>keypress\<close> listener checks the flag. A search sets the flag when it begins.
  \<^verbatim>\<open>performSearch\<close> itself behaves the same whether the flag is set or not.
\<close>

theorem ui_triggers_gated:
  assumes "isSearching s"
  shows "\<not> invokes_search s ev
    \<and> input_disabled (render_controls s) \<and> button_disabled (render_controls s)
    \<and> isSearching (begin_search sel s')
    \<and> snd (performSearch env input s) = snd (performSearch env input (s\<lparr>isSearching := False\<rparr>))"
  using assms by (cases ev) (simp_all add: render_controls_def begin_search_def performSearch_ignores_flag)

theorem ui_triggers_gated_witness:
  "isSearching (begin_search ''h1'' onLoad) \<and>
   \<not> invokes_search (begin_search ''h1'' onLoad) (KeyPress ''Enter'') \<and>
   \<not> invokes_search (begin_search ''h1'' onLoad) ButtonClick \<and>
   invokes_search onLoad (KeyPress ''Enter'') \<and> invokes_search onLoad ButtonClick"
proof -
  have h: "isSearching (begin_search ''h1'' onLoad)" by (simp add: begin_search_def)
  have "\<not> invokes_search (begin_search ''h1'' onLoad) (KeyPress ''Enter'')"
    using ui_triggers_gated [OF h, of "KeyPress ''Enter''"] by (rule conjunct1)
  moreover have "\<not> invokes_search (begin_search ''h1'' onLoad) ButtonClick"
    using ui_triggers_gated [OF h, of ButtonClick] by (rule conjunct1)
  moreover have "invokes_search onLoad (KeyPress ''Enter'') \<and> invokes_search onLoad ButtonClick"
    by (simp add: onLoad_def render_controls_def)
  ultimately show ?thesis using h by simp
qed

text \<open>
  Claim C5. A selector that is empty or consists of white space only is rejected with
  the error notice before anything else happens: the call returns the session it was
  given, unchanged, and its only event is the notice, so neither the inventory nor any
  page is fetched.
\<close>

theorem empty_selector_rejected:
  assumes "list_all is_whitespace v"
  shows "performSearch env (Some v) s = (s, [Notification Please_enter_a_CSS_selector ErrorKind])
    \<and> GetCrawlStatus \<notin> set (snd (performSearch env (Some v) s))
    \<and> (\<forall>u. PostFetchHtml u \<notin> set (snd (performSearch env (Some v) s)))"
proof -
  have "trim v = []"
    using assms by (simp add: trim_eq_Nil_iff list_all_iff)
  then show ?thesis by (simp add: performSearch_def)
qed

theorem empty_selector_rejected_witness:
  "list_all is_whitespace '' '' \<and>
   performSearch (browser [html_page ''/a''] [(''/a'', ok ''<h1></h1>'')] (\<lambda>i. [])) (Some '' '') onLoad
     = (onLoad, [Notification Please_enter_a_CSS_selector ErrorKind])"
proof -
  have h: "list_all is_whitespace '' ''" by (simp add: is_whitespace_def)
  from empty_selector_rejected [OF h] have
    "performSearch (browser [html_page ''/a''] [(''/a'', ok ''<h1></h1>'')] (\<lambda>i. [])) (Some '' '') onLoad
       = (onLoad, [Notification Please_enter_a_CSS_selector ErrorKind])"
    by (rule conjunct1)
  with h show ?thesis by (rule conjI)
qed

text \<open>
  Claim C6. The total that \<^verbatim>\<open>renderResults\<close> shows is the sum of the counts of the
  session's results, whatever search produced them.
\<close>

theorem totalMatches_sum:
  "totalMatches (results (fst (performSearch env input s)))
     = sum_list (map res_count (results (fst (performSearch env input s))))"
  by (simp add: totalMatches_def foldl_add_count)

text \<open>
  Claim C7. A page that is not eligible is never fetched and yields no result, but it
  is counted twice: once by the increment before the early return and once more by the
  \<^verbatim>\<open>finally\<close> block. Shown on an inventory whose only page has status 404: the
  counter ends at \<open>2\<close> and the progress shown is 200 percent.
\<close>

theorem ineligible_page_counted_twice:
  "\<not> eligible (page ''/missing'' 404 (Str ''text/html'') (Str ''Not found'')) \<and>
   search_body (browser [page ''/missing'' 404 (Str ''text/html'') (Str ''Not found'')]
                  [(''/missing'', ok ''<h1></h1>'')] (\<lambda>i. [])) ''h1''
       [page ''/missing'' 404 (Str ''text/html'') (Str ''Not found'')]
     = Inr \<lparr>l_results = [], processed = 2, trace = [TaskSettled ''/missing'', ProgressText 200]\<rparr>"
  by (simp add: scenario_defs progress_values)

text \<open>
  Claim C8. Let the fetch of \<open>u\<close> fail: rejected, answered without success or without
  markup, or answered with markup whose parsing throws. Then the search still
  completes with no error; its results are those of the same search with any other
  outcome for \<open>u\<close>, less the entries of \<open>u\<close>, so the other pages' results are unaffected;
  the task of the failed page still increments \<open>processed\<close> once, and the counter ends
  at the same value.
\<close>

theorem page_failure_isolated:
  assumes "page_fails env out" "trim v \<noteq> []" "crawl_status env = Inr urls" "urls \<noteq> []"
  shows "results (fst (performSearch (with_outcome env u out) (Some v) s))
           = filter (\<lambda>r. res_url r \<noteq> u) (results (fst (performSearch env (Some v) s)))
    \<and> \<not> isSearching (fst (performSearch (with_outcome env u out) (Some v) s))
    \<and> error (fst (performSearch (with_outcome env u out) (Some v) s)) = None
    \<and> processed (complete_task (with_outcome env u out) (trim v) urlData st) = processed st + 1
    \<and> (\<exists>st'. search_body (with_outcome env u out) (trim v) urls = Inr st'
              \<and> processed st' = counted urls)"
proof -
  have cs: "crawl_status (with_outcome env u out) = Inr urls"
    using assms(3) by simp
  have "results (fst (performSearch (with_outcome env u out) (Some v) s))
           = filter (\<lambda>r. res_url r \<noteq> u) (results (fst (performSearch env (Some v) s)))"
    by (simp add: performSearch_run [OF assms(2) cs assms(4)]
        performSearch_run [OF assms(2) assms(3) assms(4)]
        loop_results_with_outcome [OF assms(1)] filter_Array_sort_by_count)
  moreover have "\<not> isSearching (fst (performSearch (with_outcome env u out) (Some v) s))"
    "error (fst (performSearch (with_outcome env u out) (Some v) s)) = None"
    by (simp_all add: performSearch_run [OF assms(2) cs assms(4)])
  moreover have "processed (complete_task (with_outcome env u out) (trim v) urlData st) = processed st + 1"
    by (simp add: complete_task_advance)
  ultimately show ?thesis using search_body_processed by blast
qed


theorem page_failure_isolated_witness:
  "page_fails (browser twelve three_headings (\<lambda>i. [])) (Inl (Error ''Failed to fetch'')) \<and>
   trim ''h1'' \<noteq> [] \<and> twelve \<noteq> [] \<and>
   map res_url (results (fst (performSearch
       (with_outcome (browser twelve three_headings (\<lambda>i. [])) ''/p07'' (Inl (Error ''Failed to fetch'')))
       (Some ''h1'') onLoad)))
     = [''/p01'', ''/p02'', ''/p03'', ''/p04'', ''/p05'', ''/p06'',
        ''/p08'', ''/p09'', ''/p10'', ''/p11'', ''/p12''] \<and>
   map res_count (results (fst (performSearch
       (with_outcome (browser twelve three_headings (\<lambda>i. [])) ''/p07'' (Inl (Error ''Failed to fetch'')))
       (Some ''h1'') onLoad)))
     = [3, 3, 3, 3, 3, 3, 3, 3, 3, 3, 3] \<and>
   totalMatches (results (fst (performSearch
       (with_outcome (browser twelve three_headings (\<lambda>i. [])) ''/p07'' (Inl (Error ''Failed to fetch'')))
       (Some ''h1'') onLoad))) = 33"
proof -
  let ?env = "browser twelve three_headings (\<lambda>i. [])"
  let ?out = "Inl (Error ''Failed to fetch'') :: js_error + htmlData"
  have h1: "page_fails ?env ?out" by (simp add: page_fails_def)
  have h2: "trim ''h1'' \<noteq> []" by (simp add: trim_def is_whitespace_def)
  have h3: "crawl_status ?env = Inr twelve" by (simp add: browser_def)
  have h4: "twelve \<noteq> []" by (simp add: twelve_def twelve_urls_def)
  have all: "results (fst (performSearch ?env (Some ''h1'') onLoad))
      = map (\<lambda>u. \<lparr>res_url = u, res_title = Str u, res_count = 3, res_status_code = 200\<rparr>) twelve_urls"
    by (simp add: scenario_defs twelve_def three_headings_def twelve_urls_def progress_values)
  have "results (fst (performSearch (with_outcome ?env ''/p07'' ?out) (Some ''h1'') onLoad))
      = filter (\<lambda>r. res_url r \<noteq> ''/p07'') (results (fst (performSearch ?env (Some ''h1'') onLoad)))"
    using page_failure_isolated [OF h1 h2 h3 h4] by (rule conjunct1)
  then have "results (fst (performSearch (with_outcome ?env ''/p07'' ?out) (Some ''h1'') onLoad))
      = map (\<lambda>u. \<lparr>res_url = u, res_title = Str u, res_count = 3, res_status_code = 200\<rparr>)
          [''/p01'', ''/p02'', ''/p03'', ''/p04'', ''/p05'', ''/p06'',
           ''/p08'', ''/p09'', ''/p10'', ''/p11'', ''/p12'']"
    by (simp add: all twelve_urls_def)
  then show ?thesis using h1 h2 h4 by (simp add: totalMatches_def)
qed

text \<open>
  Claim C9, as stated, fails: the batches cut the whole inventory, not the eligible
  pages. Six pages of which the last five are eligible are searched in two batches,
  with four fetches in the first and one in the second.
\<close>

theorem batches_cut_whole_inventory:
  "length (filter eligible six) = 5 \<and>
   snd (performSearch (browser six six_served (\<lambda>i. [])) (Some ''h1'') onLoad)
     = [GetCrawlStatus,
        TaskSettled ''/x'', PostFetchHtml ''/1'', PostFetchHtml ''/2'', PostFetchHtml ''/3'',
        PostFetchHtml ''/4'',
        TaskSettled ''/1'', TaskSettled ''/2'', TaskSettled ''/3'', TaskSettled ''/4'',
        ProgressText 100,
        PostFetchHtml ''/5'', TaskSettled ''/5'', ProgressText 117,
        Notification (Found_on_pages ''h1'' 5) SuccessKind]"
  by (simp add: scenario_defs six_def six_served_def progress_values)

text \<open>
  Claim C9, amended. The inventory as a whole, eligible pages or not, is cut into
  consecutive batches of five pages, the last one possibly shorter, and the batches run
  one after the other: the events of a run are those of the first batch followed by
  its progress update, then those of the second, and so on. Within a batch every task
  is started, which posts the fetch of an eligible page, before any fetch completes, and
  the eligible pages of the batch then complete in some order. An inventory of twelve
  pages gives three batches of sizes 5, 5 and 2, and when all pages of a batch are
  eligible a fetch is posted for each of them.
\<close>

theorem batches_run_in_sequence:
  "(\<exists>st. search_body env sel urls = Inr st
       \<and> trace st
          = concat (map (\<lambda>j. map start_event (slice j (j + batchSize) urls)
                             @ concat (map (completion_events env sel)
                                         (completions env j (slice j (j + batchSize) urls)))
                             @ [ProgressText (progress_percent
                                   (counted (slice 0 (j + batchSize) urls)) (length urls))])
                      (batch_starts 0 (length urls))))
   \<and> mset (completions env j batch) = mset (filter eligible batch)
   \<and> batch_starts 0 (length urls) = map (\<lambda>k. k * batchSize) [0..<(length urls + 4) div batchSize]
   \<and> concat (map (\<lambda>j. slice j (j + batchSize) urls) (batch_starts 0 (length urls))) = urls
   \<and> (\<forall>j\<in>set (batch_starts 0 (length urls)).
         length (slice j (j + batchSize) urls) = min batchSize (length urls - j)
         \<and> 0 < length (slice j (j + batchSize) urls))
   \<and> (length urls = 12 \<longrightarrow>
         map (\<lambda>j. length (slice j (j + batchSize) urls)) (batch_starts 0 (length urls)) = [5, 5, 2])
   \<and> (list_all eligible batch \<longrightarrow>
         map start_event batch = map (\<lambda>urlData. PostFetchHtml (url urlData)) batch
         \<and> mset (completions env j batch) = mset batch)"
proof -
  obtain st where body: "search_body env sel urls = Inr st"
    and t: "trace st = loop_events env sel urls 0 0"
    using trace_search_body by blast
  have "trace st
          = concat (map (\<lambda>j. map start_event (slice j (j + batchSize) urls)
                             @ concat (map (completion_events env sel)
                                         (completions env j (slice j (j + batchSize) urls)))
                             @ [ProgressText (progress_percent
                                   (counted (slice 0 (j + batchSize) urls)) (length urls))])
                      (batch_starts 0 (length urls)))"
    by (simp add: t loop_events_def batch_events_def)
  with body have c1: "\<exists>st. search_body env sel urls = Inr st
       \<and> trace st
          = concat (map (\<lambda>j. map start_event (slice j (j + batchSize) urls)
                             @ concat (map (completion_events env sel)
                                         (completions env j (slice j (j + batchSize) urls)))
                             @ [ProgressText (progress_percent
                                   (counted (slice 0 (j + batchSize) urls)) (length urls))])
                      (batch_starts 0 (length urls)))"
    by blast
  have c2: "mset (completions env j batch) = mset (filter eligible batch)"
    by (simp add: completions_def)
  have c3: "batch_starts 0 (length urls) = map (\<lambda>k. k * batchSize) [0..<(length urls + 4) div batchSize]"
    using batch_starts_closed [of 0 "length urls"] by simp
  have c4: "concat (map (\<lambda>j. slice j (j + batchSize) urls) (batch_starts 0 (length urls))) = urls"
    by (simp add: batches_concat)
  have c5: "\<forall>j\<in>set (batch_starts 0 (length urls)).
         length (slice j (j + batchSize) urls) = min batchSize (length urls - j)
         \<and> 0 < length (slice j (j + batchSize) urls)"
    using batch_starts_bounds [of _ 0 "length urls"] by (auto simp: length_slice batchSize_def)
  have c6: "length urls = 12 \<longrightarrow>
         map (\<lambda>j. length (slice j (j + batchSize) urls)) (batch_starts 0 (length urls)) = [5, 5, 2]"
    by (simp add: batch_starts_12 length_slice batchSize_def)
  have c7: "list_all eligible batch \<longrightarrow>
         map start_event batch = map (\<lambda>urlData. PostFetchHtml (url urlData)) batch
         \<and> mset (completions env j batch) = mset batch"
    by (auto simp: completions_def start_event_def list_all_iff filter_id_conv)
  from c1 c2 c3 c4 c5 c6 c7 show ?thesis by blast
qed

theorem batches_run_in_sequence_witness:
  "length twelve = 12 \<and> list_all eligible twelve \<and>
   map (\<lambda>j. length (slice j (j + batchSize) twelve)) (batch_starts 0 (length twelve)) = [5, 5, 2] \<and>
   map (\<lambda>j. map url (slice j (j + batchSize) twelve)) (batch_starts 0 (length twelve))
     = [[''/p01'', ''/p02'', ''/p03'', ''/p04'', ''/p05''],
        [''/p06'', ''/p07'', ''/p08'', ''/p09'', ''/p10''],
        [''/p11'', ''/p12'']]"
proof -
  have "length twelve = 12 \<longrightarrow>
      map (\<lambda>j. length (slice j (j + batchSize) twelve)) (batch_starts 0 (length twelve)) = [5, 5, 2]"
    using batches_run_in_sequence [where urls = twelve] by blast
  then have "map (\<lambda>j. length (slice j (j + batchSize) twelve)) (batch_starts 0 (length twelve)) = [5, 5, 2]"
    using twelve_facts(1) by blast
  moreover have "map (\<lambda>j. map url (slice j (j + batchSize) twelve)) (batch_starts 0 (length twelve))
     = [[''/p01'', ''/p02'', ''/p03'', ''/p04'', ''/p05''],
        [''/p06'', ''/p07'', ''/p08'', ''/p09'', ''/p10''],
        [''/p11'', ''/p12'']]"
    by (simp add: twelve_facts(1) batch_starts_12)
       (simp add: twelve_def twelve_urls_def slice_def batchSize_def html_page_def page_def)
  ultimately show ?thesis using twelve_facts by blast
qed

text \<open>
  Claim C10. After a search, every result carries a title that is a string, never
  \<open>Null\<close> or \<open>Undefined\<close>: the title of the inventory page it comes from when that is a
  non-empty string, and the page's URL when the inventory title is null, undefined or
  empty.
\<close>

theorem result_title_falls_back_to_url:
  assumes "trim v \<noteq> []" "crawl_status env = Inr urls" "urls \<noteq> []"
  shows "\<forall>r\<in>set (results (fst (performSearch env (Some v) s))).
           \<exists>urlData\<in>set urls.
              res_url r = url urlData \<and>
              res_title r = (case title urlData of
                               Str t \<Rightarrow> if t = [] then Str (url urlData) else Str t
                             | Undefined \<Rightarrow> Str (url urlData)
                             | Null \<Rightarrow> Str (url urlData)) \<and>
              res_title r \<noteq> Null \<and> res_title r \<noteq> Undefined"
proof
  fix r
  assume "r \<in> set (results (fst (performSearch env (Some v) s)))"
  then have "r \<in> set (loop_results env (trim v) urls 0)"
    by (simp add: performSearch_run [OF assms] set_Array_sort_by_count)
  then obtain urlData where u: "urlData \<in> set urls"
    and r: "r \<in> set (page_result env (trim v) urlData)"
    using loop_results_origin by blast
  have f: "res_url r = url urlData" "res_title r = js_or (title urlData) (Str (url urlData))"
    using page_result_fields [OF r] by simp_all
  have "res_title r = (case title urlData of
                               Str t \<Rightarrow> if t = [] then Str (url urlData) else Str t
                             | Undefined \<Rightarrow> Str (url urlData)
                             | Null \<Rightarrow> Str (url urlData))"
    unfolding f(2) by (cases "title urlData") (simp_all add: js_or_def)
  moreover have "res_title r \<noteq> Null \<and> res_title r \<noteq> Undefined"
    unfolding f(2) by (cases "title urlData") (simp_all add: js_or_def)
  ultimately show "\<exists>urlData\<in>set urls.
              res_url r = url urlData \<and>
              res_title r = (case title urlData of
                               Str t \<Rightarrow> if t = [] then Str (url urlData) else Str t
                             | Undefined \<Rightarrow> Str (url urlData)
                             | Null \<Rightarrow> Str (url urlData)) \<and>
              res_title r \<noteq> Null \<and> res_title r \<noteq> Undefined"
    using u f(1) by blast
qed

theorem result_title_falls_back_to_url_witness:
  "trim ''h1'' \<noteq> [] \<and> titled \<noteq> [] \<and>
   map res_title (results (fst (performSearch (browser titled one_heading (\<lambda>i. [])) (Some ''h1'') onLoad)))
     = [Str ''Home'', Str ''/b'', Str ''/c'', Str ''/d''] \<and>
   list_all (\<lambda>r. res_title r \<noteq> Null \<and> res_title r \<noteq> Undefined)
     (results (fst (performSearch (browser titled one_heading (\<lambda>i. [])) (Some ''h1'') onLoad)))"
proof -
  have h1: "trim ''h1'' \<noteq> []" by (simp add: trim_def is_whitespace_def)
  have h2: "crawl_status (browser titled one_heading (\<lambda>i. [])) = Inr titled"
    by (simp add: browser_def)
  have h3: "titled \<noteq> []" by (simp add: titled_def)
  have "list_all (\<lambda>r. res_title r \<noteq> Null \<and> res_title r \<noteq> Undefined)
     (results (fst (performSearch (browser titled one_heading (\<lambda>i. [])) (Some ''h1'') onLoad)))"
    unfolding list_all_iff using result_title_falls_back_to_url [OF h1 h2 h3, of onLoad] by blast
  moreover have "map res_title (results (fst (performSearch (browser titled one_heading (\<lambda>i. [])) (Some ''h1'') onLoad)))
     = [Str ''Home'', Str ''/b'', Str ''/c'', Str ''/d'']"
    by (simp add: scenario_defs titled_def one_heading_def progress_values)
  ultimately show ?thesis using h1 h3 by simp
qed

end
